theory Spec2Isabelle
  imports Complex_Main
begin

section \<open>Text helpers\<close>

text \<open>
  Python strings are modelled as \<^typ>\<open>string\<close>: a \<^typ>\<open>char\<close> is a code point below 256.
  On these code points \<^verbatim>\<open>str.isspace\<close>, the class \<^verbatim>\<open>\s\<close> of \<^verbatim>\<open>re\<close>, and the
  separators of \<^verbatim>\<open>str.split()\<close> and \<^verbatim>\<open>str.strip()\<close> are the same set: 9..13, 28..32,
  133 and 160. The class \<^verbatim>\<open>\d\<close> is 48..57 there.
\<close>

definition isspace :: "char \<Rightarrow> bool" where
  "isspace c = (let n = (of_char c :: nat) in
     (9 \<le> n \<and> n \<le> 13) \<or> (28 \<le> n \<and> n \<le> 32) \<or> n = 133 \<or> n = 160)"

definition isdigit :: "char \<Rightarrow> bool" where
  "isdigit c = (let n = (of_char c :: nat) in 48 \<le> n \<and> n \<le> 57)"

definition NBSP :: char where
  "NBSP = char_of (160 :: nat)"

text \<open>
  \<^verbatim>\<open>CITATION_BRACKETS = re.compile(r"\[\s*\d+\s*\]")\<close>. \<open>match_citation s\<close> is the rest of
  \<open>s\<close> after a match that starts at its first character, if there is one. The classes
  \<^verbatim>\<open>\s\<close> and \<^verbatim>\<open>\d\<close> are disjoint and hold neither bracket, so the greedy
  quantifiers never backtrack to a different match.
\<close>

fun match_citation :: "string \<Rightarrow> string option" where
  "match_citation [] = None"
| "match_citation (c # r) =
     (if c \<noteq> CHR ''['' then None
      else let r1 = dropWhile isspace r;
               r2 = dropWhile isdigit r1;
               r3 = dropWhile isspace r2
           in if takeWhile isdigit r1 = [] then None
              else (case r3 of
                      [] \<Rightarrow> None
                    | d # r4 \<Rightarrow> if d = CHR '']'' then Some r4 else None))"

lemma match_citation_shorter: "match_citation s = Some r \<Longrightarrow> length r < length s"
proof (cases s)
  case Nil
  then show "match_citation s = Some r \<Longrightarrow> length r < length s" by simp
next
  case (Cons c t)
  assume m: "match_citation s = Some r"
  let ?r1 = "dropWhile isspace t"
  let ?r2 = "dropWhile isdigit ?r1"
  let ?r3 = "dropWhile isspace ?r2"
  from m Cons obtain d where "?r3 = d # r"
    by (auto simp: Let_def split: if_splits list.splits)
  then have "length r < length ?r3" by simp
  also have "length ?r3 \<le> length ?r2" by (rule length_dropWhile_le)
  also have "length ?r2 \<le> length ?r1" by (rule length_dropWhile_le)
  also have "length ?r1 \<le> length t" by (rule length_dropWhile_le)
  finally show "length r < length s" using Cons by simp
qed

text \<open>
  \<^verbatim>\<open>CITATION_BRACKETS.sub("", text)\<close>: one scan from the left; a match is dropped and
  the scan goes on after it, any other character is kept.
\<close>

function sub_citations :: "string \<Rightarrow> string" where
  "sub_citations [] = []"
| "sub_citations (c # r) =
     (case match_citation (c # r) of
        Some rest \<Rightarrow> sub_citations rest
      | None \<Rightarrow> c # sub_citations r)"
  by pat_completeness auto
termination
  by (relation "measure length") (auto dest: match_citation_shorter simp del: match_citation.simps)

text \<open>\<^verbatim>\<open>text.replace("\u00a0", " ")\<close>: the no-break space is code point 160.\<close>

definition replace_nbsp :: "string \<Rightarrow> string" where
  "replace_nbsp s = map (\<lambda>c. if c = NBSP then CHR '' '' else c) s"

text \<open>\<^verbatim>\<open>MULTI_SPACE.sub(" ", text)\<close> with \<^verbatim>\<open>MULTI_SPACE = re.compile(r"\s+")\<close>\<close>

function collapse_ws :: "string \<Rightarrow> string" where
  "collapse_ws [] = []"
| "collapse_ws (c # r) =
     (if isspace c then CHR '' '' # collapse_ws (dropWhile isspace r)
      else c # collapse_ws r)"
  by pat_completeness auto
termination
  by (relation "measure length") (auto simp: less_Suc_eq_le length_dropWhile_le)

text \<open>\<^verbatim>\<open>str.strip()\<close>\<close>

definition strip :: "string \<Rightarrow> string" where
  "strip s = rev (dropWhile isspace (rev (dropWhile isspace s)))"

definition clean_text :: "string \<Rightarrow> string" where
  "clean_text text = strip (collapse_ws (replace_nbsp (sub_citations text)))"

subsection \<open>Whitespace normalisation is idempotent\<close>

text \<open>
  \<open>single_spaced t\<close>: every whitespace character of \<open>t\<close> is a blank that is followed
  by a character that is not whitespace, or by the end of \<open>t\<close>.
\<close>

fun single_spaced :: "string \<Rightarrow> bool" where
  "single_spaced [] = True"
| "single_spaced (c # r) =
     ((isspace c \<longrightarrow> c = CHR '' '' \<and> (r = [] \<or> \<not> isspace (hd r))) \<and> single_spaced r)"

lemma collapse_ws_head: "t = [] \<or> \<not> isspace (hd t) \<Longrightarrow> collapse_ws t = [] \<or> \<not> isspace (hd (collapse_ws t))"
  by (cases t) auto

lemma single_spaced_collapse_ws: "single_spaced (collapse_ws t)"
proof (induction t rule: collapse_ws.induct)
  case 1
  show ?case by simp
next
  case (2 c r)
  show ?case
  proof (cases "isspace c")
    case True
    have "dropWhile isspace r = [] \<or> \<not> isspace (hd (dropWhile isspace r))"
      using hd_dropWhile[of isspace r] by blast
    then have "collapse_ws (dropWhile isspace r) = [] \<or> \<not> isspace (hd (collapse_ws (dropWhile isspace r)))"
      by (rule collapse_ws_head)
    with True 2 show ?thesis by simp
  next
    case False
    with 2 show ?thesis by simp
  qed
qed

lemma collapse_ws_fixed: "single_spaced t \<Longrightarrow> collapse_ws t = t"
proof (induction t rule: collapse_ws.induct)
  case 1
  show ?case by simp
next
  case (2 c r)
  show ?case
  proof (cases "isspace c")
    case True
    with 2(3) have c: "c = CHR '' ''" and r: "r = [] \<or> \<not> isspace (hd r)" and s: "single_spaced r"
      by simp_all
    from r have d: "dropWhile isspace r = r" by (cases r) auto
    with 2(1) True s c show ?thesis by simp
  next
    case False
    with 2 show ?thesis by simp
  qed
qed

lemma isspace_NBSP: "isspace NBSP"
  by (simp add: isspace_def NBSP_def)

lemma NBSP_not_blank: "NBSP \<noteq> CHR '' ''"
proof
  assume "NBSP = CHR '' ''"
  then have "(of_char NBSP :: nat) = of_char (CHR '' '')" by simp
  then show False by (simp add: NBSP_def)
qed

lemma replace_nbsp_fixed: "single_spaced t \<Longrightarrow> replace_nbsp t = t"
proof (induction t)
  case Nil
  show ?case by (simp add: replace_nbsp_def)
next
  case (Cons c r)
  then have "c \<noteq> NBSP" using isspace_NBSP NBSP_not_blank by auto
  with Cons show ?case by (simp add: replace_nbsp_def)
qed

lemma single_spaced_append: "single_spaced (a @ b) \<Longrightarrow> single_spaced a \<and> single_spaced b"
proof (induction a)
  case Nil
  then show ?case by simp
next
  case (Cons c a)
  then show ?case by (cases a) auto
qed

lemma single_spaced_strip: "single_spaced t \<Longrightarrow> single_spaced (strip t)"
proof -
  assume t: "single_spaced t"
  let ?a = "dropWhile isspace t"
  have "t = takeWhile isspace t @ ?a" by simp
  with t have a: "single_spaced ?a" using single_spaced_append by metis
  have "?a = rev (dropWhile isspace (rev ?a)) @ rev (takeWhile isspace (rev ?a))"
    by (metis rev_append rev_rev_ident takeWhile_dropWhile_id)
  with a have "single_spaced (rev (dropWhile isspace (rev ?a)))"
    using single_spaced_append by metis
  then show ?thesis by (simp add: strip_def)
qed

lemma dropWhile_strip: "dropWhile isspace (strip t) = strip t"
proof -
  let ?a = "dropWhile isspace t"
  let ?b = "rev (dropWhile isspace (rev ?a))"
  have ab: "?a = ?b @ rev (takeWhile isspace (rev ?a))"
    by (metis rev_append rev_rev_ident takeWhile_dropWhile_id)
  show ?thesis
  proof (cases "?b = []")
    case True
    show ?thesis by (simp only: strip_def True dropWhile.simps)
  next
    case False
    then have "hd ?b = hd ?a" using ab by (metis hd_append2)
    moreover have "?a \<noteq> []"
    proof
      assume e: "?a = []"
      have "?b = []" unfolding e by simp
      with False show False ..
    qed
    then have "\<not> isspace (hd ?a)" by (rule hd_dropWhile)
    ultimately have "\<not> isspace (hd ?b)" by simp
    with False have "dropWhile isspace ?b = ?b" by (cases ?b) auto
    then show ?thesis by (simp add: strip_def)
  qed
qed

lemma strip_idem: "strip (strip t) = strip t"
proof -
  have "strip (strip t) = rev (dropWhile isspace (rev (strip t)))"
    unfolding strip_def[of "strip t"] dropWhile_strip ..
  also have "\<dots> = strip t"
    by (simp add: strip_def dropWhile_idem)
  finally show ?thesis .
qed

text \<open>The last three steps of \<open>clean_text\<close>.\<close>

definition norm_ws :: "string \<Rightarrow> string" where
  "norm_ws t = strip (collapse_ws (replace_nbsp t))"

lemma norm_ws_idem: "norm_ws (norm_ws t) = norm_ws t"
proof -
  let ?u = "collapse_ws (replace_nbsp t)"
  have s: "single_spaced (strip ?u)"
    by (rule single_spaced_strip) (rule single_spaced_collapse_ws)
  have "norm_ws (strip ?u) = strip (strip ?u)"
    unfolding norm_ws_def using s by (simp add: replace_nbsp_fixed collapse_ws_fixed)
  then show ?thesis by (simp add: norm_ws_def strip_idem)
qed

text \<open>
  C4, as amended. \<open>clean_text\<close> is a function of its argument alone, and it is idempotent
  on every input whose normal form holds no citation marker any more: if the marker
  substitution leaves \<open>clean_text s\<close> as it is, then normalising twice is normalising once.
\<close>

theorem clean_text_idempotent_when_marker_free:
  "sub_citations (clean_text s) = clean_text s \<Longrightarrow> clean_text (clean_text s) = clean_text s"
proof -
  assume h: "sub_citations (clean_text s) = clean_text s"
  have c: "\<And>x. clean_text x = norm_ws (sub_citations x)"
    by (simp add: clean_text_def norm_ws_def)
  have "clean_text (clean_text s) = norm_ws (clean_text s)"
    using h by (simp add: c)
  also have "\<dots> = clean_text s"
    by (simp add: c norm_ws_idem)
  finally show ?thesis .
qed

text \<open>Witness for C4: a text with a marker, wide gaps and a trailing blank.\<close>

theorem clean_text_idempotent_witness:
  "sub_citations (clean_text ''a  [1] b '') = clean_text ''a  [1] b '' \<and>
   clean_text (clean_text ''a  [1] b '') = clean_text ''a  [1] b ''"
proof -
  have h: "sub_citations (clean_text ''a  [1] b '') = clean_text ''a  [1] b ''"
    by code_simp
  show ?thesis
    using h clean_text_idempotent_when_marker_free [OF h] by simp
qed

text \<open>
  Counterexample to C4 as stated: removing the marker \<^verbatim>\<open>[1]\<close> from \<^verbatim>\<open>[[1]2]\<close> leaves
  \<^verbatim>\<open>[2]\<close>, a marker that the single scan does not see and the second call removes.
\<close>

theorem clean_text_not_idempotent:
  "clean_text ''[[1]2]'' = ''[2]'' \<and>
   clean_text (clean_text ''[[1]2]'') = [] \<and>
   clean_text (clean_text ''[[1]2]'') \<noteq> clean_text ''[[1]2]''"
  by code_simp

section \<open>Python floats\<close>

text \<open>
  A Python float is an IEEE 754 double: a finite value, an infinity or NaN. A finite
  double is modelled by the rational number it denotes (the sign of a zero is not
  kept; no result below depends on it). \<open>fl x\<close> is the double nearest to the rational
  \<open>x\<close>, a tie going to the even significand: with \<open>e\<close> the exponent of the binade of
  \<open>x\<close>, not below \<open>-1022\<close> (below it the doubles are subnormal), the doubles around \<open>x\<close>
  are the multiples of \<open>2 ^ (e - 52)\<close>. Every arithmetic operation on floats yields
  \<open>fl\<close> of the exact result, and so do a decimal literal and the conversion of an
  integer. The exponent is not bounded above in \<open>fl\<close>: the floats that the program computes
  are products of word counts and densities, far below \<open>2 ^ 1024\<close> for every text that
  fits in memory; where a float is read from outside, overflow is tested (\<open>to_float\<close>).
\<close>

datatype pyfloat = Finite rat | PosInf | NegInf | NaN

text \<open>\<^verbatim>\<open>int.bit_length()\<close>\<close>

function bit_length :: "int \<Rightarrow> int" where
  "bit_length n = (if n \<le> 0 then 0 else 1 + bit_length (n div 2))"
  by pat_completeness auto
termination
  by (relation "measure nat") auto

declare bit_length.simps [simp del]

definition pow2 :: "int \<Rightarrow> rat" where
  "pow2 e = (if 0 \<le> e then 2 ^ nat e else 1 / 2 ^ nat (- e))"

text \<open>The exponent \<open>e\<close> with \<open>2 ^ e \<le> x < 2 ^ (e + 1)\<close>, for \<open>x > 0\<close>.\<close>

definition binade :: "rat \<Rightarrow> int" where
  "binade x = (case quotient_of x of (p, q) \<Rightarrow>
     let d = bit_length p - bit_length q
     in if pow2 d \<le> x then d else d - 1)"

text \<open>
  \<open>py_round\<close> is Python's \<^verbatim>\<open>round\<close> of a float to an integer: to the nearest integer, a
  tie to the even one. It is exact on the value of the float.
\<close>

definition py_round :: "rat \<Rightarrow> int" where
  "py_round x = (let f = \<lfloor>x\<rfloor>; d = x - of_int f in
     if d < 1 / 2 then f
     else if 1 / 2 < d then f + 1
     else if even f then f else f + 1)"

definition fl :: "rat \<Rightarrow> rat" where
  "fl x = (if x = 0 then 0
     else let e = max (binade \<bar>x\<bar>) (- 1022); q = pow2 (e - 52)
          in of_int (py_round (x / q)) * q)"

definition to_float :: "rat \<Rightarrow> pyfloat" where
  "to_float x = (let r = fl x in
     if 2 ^ 1024 \<le> r then PosInf else if r \<le> - (2 ^ 1024) then NegInf else Finite r)"

definition fadd :: "rat \<Rightarrow> rat \<Rightarrow> rat" where
  "fadd x y = fl (x + y)"

definition fsub :: "rat \<Rightarrow> rat \<Rightarrow> rat" where
  "fsub x y = fl (x - y)"

definition fmul :: "rat \<Rightarrow> rat \<Rightarrow> rat" where
  "fmul x y = fl (x * y)"

definition fdiv :: "rat \<Rightarrow> rat \<Rightarrow> rat" where
  "fdiv x y = fl (x / y)"

definition float_of_int :: "int \<Rightarrow> rat" where
  "float_of_int n = fl (of_int n)"

text \<open>
  \<^verbatim>\<open>max(0.0, min(1.0, y))\<close>. \<^verbatim>\<open>min\<close> keeps its first argument unless the second is
  smaller, \<^verbatim>\<open>max\<close> keeps its first unless the second is greater, and every comparison
  with NaN is false: NaN and the positive infinity give 1.0, the negative infinity 0.0.
\<close>

definition clamp01 :: "pyfloat \<Rightarrow> rat" where
  "clamp01 y =
     (case y of
        Finite r \<Rightarrow> (let m = (if r < 1 then r else 1) in if 0 < m then m else 0)
      | PosInf \<Rightarrow> 1
      | NegInf \<Rightarrow> 0
      | NaN \<Rightarrow> 1)"

text \<open>\<^verbatim>\<open>y <= t\<close> for a float \<open>y\<close> and a finite float \<open>t\<close>.\<close>

definition float_le :: "pyfloat \<Rightarrow> rat \<Rightarrow> bool" where
  "float_le y t = (case y of Finite r \<Rightarrow> r \<le> t | PosInf \<Rightarrow> False | NegInf \<Rightarrow> True | NaN \<Rightarrow> False)"

section \<open>Adaptive per-call sizing\<close>

definition choose_call_size :: "pyfloat \<Rightarrow> int \<Rightarrow> int \<Rightarrow> int" where
  "choose_call_size yield_level remaining_overall remaining_for_chunk =
     (let base = py_round (fsub 12 (fmul 6 (clamp01 yield_level)));
          base = max 3 (min 16 base);
          base = (if remaining_overall > 100 then min 20 (base + 4) else base)
      in max 1 (min base (min remaining_overall remaining_for_chunk)))"

text \<open>
  The base of the specification, in its words: clamp(round(12 - 6 clamp(y, 0, 1)), 3, 16),
  plus 4 and capped at 20 when more than 100 cards remain overall; the product and the
  difference are those of floats.
\<close>

definition clamp :: "int \<Rightarrow> int \<Rightarrow> int \<Rightarrow> int" where
  "clamp x lo hi = max lo (min hi x)"

definition spec_base :: "pyfloat \<Rightarrow> int \<Rightarrow> int" where
  "spec_base y remaining_overall =
     (let b = clamp (py_round (fsub 12 (fmul 6 (clamp01 y)))) 3 16
      in if remaining_overall > 100 then min 20 (b + 4) else b)"

lemma spec_base_bounds: "3 \<le> spec_base y ro \<and> spec_base y ro \<le> 20"
  by (auto simp add: spec_base_def clamp_def Let_def)

lemma choose_call_size_eq:
  "choose_call_size y ro rc = max 1 (min (spec_base y ro) (min ro rc))"
  by (simp only: choose_call_size_def spec_base_def clamp_def Let_def)

text \<open>
  C2, as amended. For every yield and all integers, \<open>choose_call_size\<close> is
  max(1, min(base, remainingOverall, remainingForChunk)) with the base of the
  specification, which lies between 3 and 20; the result is at least 1. When both
  remaining bounds are at least 1, as at every call of the orchestrator, the result is
  min(base, remainingOverall, remainingForChunk) and exceeds neither bound.
\<close>

theorem choose_call_size_spec:
  "choose_call_size y ro rc = max 1 (min (spec_base y ro) (min ro rc)) \<and>
   3 \<le> spec_base y ro \<and> spec_base y ro \<le> 20 \<and>
   1 \<le> choose_call_size y ro rc \<and>
   (1 \<le> ro \<and> 1 \<le> rc \<longrightarrow>
      choose_call_size y ro rc = min (spec_base y ro) (min ro rc) \<and>
      choose_call_size y ro rc \<le> ro \<and> choose_call_size y ro rc \<le> rc)"
proof -
  have b: "3 \<le> spec_base y ro \<and> spec_base y ro \<le> 20"
    by (rule spec_base_bounds)
  show ?thesis
    using b unfolding choose_call_size_eq by auto
qed

text \<open>Witness for C2: yield 0.5 with 200 cards left overall and 50 for the chunk.\<close>

theorem choose_call_size_spec_witness:
  "(1::int) \<le> 200 \<and> (1::int) \<le> 50 \<and>
   choose_call_size (Finite (1 / 2)) 200 50 = 13 \<and> spec_base (Finite (1 / 2)) 200 = 13"
  using choose_call_size_spec [of "Finite (1 / 2)" 200 50]
  by code_simp

text \<open>
  Counterexample to C2 as stated: with nothing left overall the result is 1, above the
  remaining bound 0 and different from min(base, 0, 5) = 0.
\<close>

theorem choose_call_size_exceeds_bound:
  "choose_call_size (Finite (1 / 2)) 0 5 = 1 \<and>
   \<not> choose_call_size (Finite (1 / 2)) 0 5 \<le> 0 \<and>
   choose_call_size (Finite (1 / 2)) 0 5 \<noteq> min (spec_base (Finite (1 / 2)) 0) (min 0 5)"
  by code_simp

section \<open>Modes\<close>

text \<open>
  \<^verbatim>\<open>str.lower()\<close> on code points below 256: the capitals A..Z and 192..222 but 215
  move up by 32, every other character stays.
\<close>

definition lower_char :: "char \<Rightarrow> char" where
  "lower_char c = (let n = (of_char c :: nat) in
     if (65 \<le> n \<and> n \<le> 90) \<or> (192 \<le> n \<and> n \<le> 222 \<and> n \<noteq> 215)
     then char_of (n + 32) else c)"

definition lower :: "string \<Rightarrow> string" where
  "lower s = map lower_char s"

definition MODE_ALIASES :: "(string \<times> string list) list" where
  "MODE_ALIASES =
     [(''Basic Recall (Q/A)'', [''basic recall (q/a)'', ''recall'', ''basic'', ''qa'', ''q/a'']),
      (''Fill in the Blank'', [''fill in the blank'', ''fill-in-the-blank'', ''cloze'']),
      (''Mechanism (Why/How)'', [''mechanism'', ''why'', ''how'', ''why/how'']),
      (''Scenario'', [''scenario'', ''case'', ''vignette''])]"

definition CANONICAL_MODES :: "string list" where
  "CANONICAL_MODES = map fst MODE_ALIASES"

text \<open>
  The inner loop of \<open>normalize_modes\<close>: the first canonical name, in the order of the
  table, whose lower case or one of whose aliases is \<open>ml\<close>.
\<close>

fun find_canon :: "(string \<times> string list) list \<Rightarrow> string \<Rightarrow> string option" where
  "find_canon [] ml = None"
| "find_canon ((canon, aliases) # rest) ml =
     (if ml = lower canon \<or> ml \<in> set aliases then Some canon else find_canon rest ml)"

text \<open>One turn of the outer loop: \<^verbatim>\<open>(m or "").strip().lower()\<close>, then the search.\<close>

definition canon_mode :: "string option \<Rightarrow> string" where
  "canon_mode m =
     (let ml = lower (strip (case m of None \<Rightarrow> [] | Some s \<Rightarrow> s))
      in case find_canon MODE_ALIASES ml of
           Some canon \<Rightarrow> canon
         | None \<Rightarrow> ''Basic Recall (Q/A)'')"

text \<open>The de-duplication loop, with its set \<open>seen\<close> and its list \<open>cleaned\<close>.\<close>

fun dedupe :: "string list \<Rightarrow> string set \<Rightarrow> string list \<Rightarrow> string list" where
  "dedupe [] seen cleaned = cleaned"
| "dedupe (m # out) seen cleaned =
     (if m \<notin> seen then dedupe out (insert m seen) (cleaned @ [m])
      else dedupe out seen cleaned)"

definition normalize_modes :: "string option list \<Rightarrow> string list" where
  "normalize_modes modes_in =
     (if modes_in = [] then [''Basic Recall (Q/A)'']
      else dedupe (map canon_mode modes_in) {} [])"

text \<open>The position of the first occurrence of \<open>x\<close> in \<open>xs\<close>.\<close>

definition first_index :: "'a list \<Rightarrow> 'a \<Rightarrow> nat" where
  "first_index xs x = length (takeWhile (\<lambda>y. y \<noteq> x) xs)"


lemma find_canon_in: "find_canon tbl ml = Some c \<Longrightarrow> c \<in> fst ` set tbl"
  by (induction tbl ml rule: find_canon.induct) (auto split: if_splits)

lemma find_canon_none:
  "\<forall>(c, al) \<in> set tbl. ml \<noteq> lower c \<and> ml \<notin> set al \<Longrightarrow> find_canon tbl ml = None"
  by (induction tbl ml rule: find_canon.induct) auto

lemma canon_mode_canonical: "canon_mode m \<in> set CANONICAL_MODES"
proof (cases "find_canon MODE_ALIASES (lower (strip (case m of None \<Rightarrow> [] | Some s \<Rightarrow> s)))")
  case None
  then show ?thesis
    by (simp add: canon_mode_def CANONICAL_MODES_def MODE_ALIASES_def)
next
  case (Some c)
  then have "c \<in> fst ` set MODE_ALIASES" by (rule find_canon_in)
  with Some show ?thesis by (simp add: canon_mode_def CANONICAL_MODES_def)
qed

lemma first_index_fresh: "m \<notin> set pre \<Longrightarrow> first_index (pre @ m # out) m = length pre"
  by (induction pre) (auto simp: first_index_def)

lemma first_index_old: "a \<in> set pre \<Longrightarrow> first_index (pre @ rest) a < length pre"
proof -
  assume a: "a \<in> set pre"
  then have "takeWhile (\<lambda>y. y \<noteq> a) (pre @ rest) = takeWhile (\<lambda>y. y \<noteq> a) pre"
    by (simp add: takeWhile_append1)
  moreover have "length (takeWhile (\<lambda>y. y \<noteq> a) pre) < length pre"
    using a by (induction pre) auto
  ultimately show ?thesis by (simp add: first_index_def)
qed

lemma dedupe_inv:
  "seen = set cleaned \<Longrightarrow> distinct cleaned \<Longrightarrow> set pre = set cleaned \<Longrightarrow>
   sorted_wrt (\<lambda>a b. first_index (pre @ out) a < first_index (pre @ out) b) cleaned \<Longrightarrow>
   distinct (dedupe out seen cleaned) \<and>
   set (dedupe out seen cleaned) = set cleaned \<union> set out \<and>
   sorted_wrt (\<lambda>a b. first_index (pre @ out) a < first_index (pre @ out) b)
     (dedupe out seen cleaned)"
proof (induction out arbitrary: seen cleaned pre)
  case Nil
  then show ?case by simp
next
  case (Cons m out)
  show ?case
  proof (cases "m \<in> seen")
    case True
    have p: "(pre @ [m]) @ out = pre @ m # out" by simp
    from True Cons.prems have s: "set (pre @ [m]) = set cleaned" by auto
    have "distinct (dedupe out seen cleaned) \<and>
      set (dedupe out seen cleaned) = set cleaned \<union> set out \<and>
      sorted_wrt (\<lambda>a b. first_index ((pre @ [m]) @ out) a < first_index ((pre @ [m]) @ out) b)
        (dedupe out seen cleaned)"
      using Cons.prems(1,2,4) s unfolding p[symmetric]
      by (intro Cons.IH) auto
    with True Cons.prems(1) show ?thesis unfolding p by auto
  next
    case False
    have p: "(pre @ [m]) @ out = pre @ m # out" by simp
    from False Cons.prems have fresh: "m \<notin> set pre" by simp
    have old: "\<forall>a \<in> set cleaned. first_index (pre @ m # out) a < first_index (pre @ m # out) m"
      using first_index_old[of _ pre "m # out"] first_index_fresh[OF fresh, of out] Cons.prems(3)
      by auto
    have sw: "sorted_wrt (\<lambda>a b. first_index ((pre @ [m]) @ out) a < first_index ((pre @ [m]) @ out) b)
        (cleaned @ [m])"
      unfolding p using Cons.prems(4) old by (simp add: sorted_wrt_append)
    have "distinct (dedupe out (insert m seen) (cleaned @ [m])) \<and>
      set (dedupe out (insert m seen) (cleaned @ [m])) = set (cleaned @ [m]) \<union> set out \<and>
      sorted_wrt (\<lambda>a b. first_index ((pre @ [m]) @ out) a < first_index ((pre @ [m]) @ out) b)
        (dedupe out (insert m seen) (cleaned @ [m]))"
      using Cons.prems(1,2,3) False sw
      by (intro Cons.IH) auto
    with False show ?thesis unfolding p by auto
  qed
qed

text \<open>
  C10. For every list of mode entries (\<open>None\<close> is Python's \<^verbatim>\<open>None\<close>) the result is not
  empty, has no duplicates and holds canonical names only; the empty list gives the one
  default mode; for a non-empty list the result holds exactly the canonical names of the
  entries, ordered by their first occurrence; an entry that, stripped and lower-cased, is
  no canonical name in lower case and no alias maps to the default mode.
\<close>

theorem normalize_modes_canonical:
  "normalize_modes ms \<noteq> [] \<and>
   distinct (normalize_modes ms) \<and>
   set (normalize_modes ms) \<subseteq> set CANONICAL_MODES \<and>
   normalize_modes [] = [''Basic Recall (Q/A)''] \<and>
   (ms \<noteq> [] \<longrightarrow>
      set (normalize_modes ms) = set (map canon_mode ms) \<and>
      sorted_wrt (\<lambda>a b. first_index (map canon_mode ms) a < first_index (map canon_mode ms) b)
        (normalize_modes ms)) \<and>
   ((\<forall>(c, al) \<in> set MODE_ALIASES.
        lower (strip (case m of None \<Rightarrow> [] | Some s \<Rightarrow> s)) \<noteq> lower c \<and>
        lower (strip (case m of None \<Rightarrow> [] | Some s \<Rightarrow> s)) \<notin> set al) \<longrightarrow>
      canon_mode m = ''Basic Recall (Q/A)'')"
proof -
  have d: "normalize_modes [] = [''Basic Recall (Q/A)'']"
    by (simp add: normalize_modes_def)
  have u: "(\<forall>(c, al) \<in> set MODE_ALIASES.
        lower (strip (case m of None \<Rightarrow> [] | Some s \<Rightarrow> s)) \<noteq> lower c \<and>
        lower (strip (case m of None \<Rightarrow> [] | Some s \<Rightarrow> s)) \<notin> set al) \<longrightarrow>
      canon_mode m = ''Basic Recall (Q/A)''"
    by (auto simp: canon_mode_def dest: find_canon_none)
  show ?thesis
  proof (cases "ms = []")
    case True
    have "''Basic Recall (Q/A)'' \<in> set CANONICAL_MODES"
      by (simp add: CANONICAL_MODES_def MODE_ALIASES_def)
    with True d u show ?thesis by simp
  next
    case False
    let ?out = "map canon_mode ms"
    have inv: "distinct (dedupe ?out {} []) \<and>
      set (dedupe ?out {} []) = set [] \<union> set ?out \<and>
      sorted_wrt (\<lambda>a b. first_index ([] @ ?out) a < first_index ([] @ ?out) b) (dedupe ?out {} [])"
      by (rule dedupe_inv) simp_all
    have n: "normalize_modes ms = dedupe ?out {} []"
      using False by (simp add: normalize_modes_def)
    have s: "set (normalize_modes ms) = set ?out" using inv n by simp
    have ne: "normalize_modes ms \<noteq> []"
    proof
      assume "normalize_modes ms = []"
      with s have "set ?out = {}" by simp
      with False show False by simp
    qed
    have c: "set (normalize_modes ms) \<subseteq> set CANONICAL_MODES"
      unfolding s using canon_mode_canonical by auto
    show ?thesis using inv n s ne c d u by simp
  qed
qed

text \<open>
  Witness for C10: an alias with a trailing blank, \<^verbatim>\<open>None\<close>, an unknown name, a
  canonical name in capitals, and the first alias again.
\<close>

theorem normalize_modes_canonical_witness:
  "[Some ''Cloze '', None, Some ''zzz'', Some ''SCENARIO'', Some ''cloze''] \<noteq> [] \<and>
   find_canon MODE_ALIASES (lower (strip ''zzz'')) = None \<and>
   normalize_modes [Some ''Cloze '', None, Some ''zzz'', Some ''SCENARIO'', Some ''cloze''] =
     [''Fill in the Blank'', ''Basic Recall (Q/A)'', ''Scenario''] \<and>
   canon_mode (Some ''zzz'') = ''Basic Recall (Q/A)''"
proof -
  have h: "\<forall>(c, al) \<in> set MODE_ALIASES.
      lower (strip ''zzz'') \<noteq> lower c \<and> lower (strip ''zzz'') \<notin> set al"
    by code_simp
  have v: "normalize_modes [Some ''Cloze '', None, Some ''zzz'', Some ''SCENARIO'', Some ''cloze''] =
     [''Fill in the Blank'', ''Basic Recall (Q/A)'', ''Scenario'']"
    by code_simp
  have "canon_mode (Some ''zzz'') = ''Basic Recall (Q/A)''"
    using h normalize_modes_canonical
      [of "[Some ''Cloze '', None, Some ''zzz'', Some ''SCENARIO'', Some ''cloze'']" "Some ''zzz''"]
    by simp
  moreover have "find_canon MODE_ALIASES (lower (strip ''zzz'')) = None"
    by code_simp
  ultimately show ?thesis using v by simp
qed

section \<open>Chunker\<close>

text \<open>\<^verbatim>\<open>str.split()\<close>: the maximal runs of characters that are not whitespace.\<close>

function split_ws :: "string \<Rightarrow> string list" where
  "split_ws s =
     (case dropWhile isspace s of
        [] \<Rightarrow> []
      | c # r \<Rightarrow> takeWhile (\<lambda>x. \<not> isspace x) (c # r) #
                 split_ws (dropWhile (\<lambda>x. \<not> isspace x) (c # r)))"
  by pat_completeness auto
termination
proof (relation "measure length")
  show "wf (measure length)" by simp
next
  fix s :: string and c r
  assume d: "dropWhile isspace s = c # r"
  have "\<not> isspace (hd (dropWhile isspace s))"
    by (rule hd_dropWhile) (simp add: d)
  then have "\<not> isspace c" by (simp add: d)
  then have "length (dropWhile (\<lambda>x. \<not> isspace x) (c # r)) \<le> length r"
    by (simp add: length_dropWhile_le)
  also have "length r < length (dropWhile isspace s)" by (simp add: d)
  also have "\<dots> \<le> length s" by (rule length_dropWhile_le)
  finally show "(dropWhile (\<lambda>x. \<not> isspace x) (c # r), s) \<in> measure length" by simp
qed

declare split_ws.simps [simp del]

text \<open>\<^verbatim>\<open>" ".join(words)\<close>\<close>

fun join_sp :: "string list \<Rightarrow> string" where
  "join_sp [] = []"
| "join_sp [w] = w"
| "join_sp (w # v # ws) = w @ CHR '' '' # join_sp (v # ws)"

text \<open>
  A Python slice \<^verbatim>\<open>xs[lo:hi]\<close>: a negative bound counts from the end, and both bounds
  are clipped to the list.
\<close>

definition py_slice :: "'a list \<Rightarrow> int \<Rightarrow> int \<Rightarrow> 'a list" where
  "py_slice xs lo hi =
     (let n = int (length xs);
          l = (if lo < 0 then max 0 (n + lo) else min lo n);
          h = (if hi < 0 then max 0 (n + hi) else min hi n)
      in take (nat (h - l)) (drop (nat l) xs))"

text \<open>The loop of \<open>chunk_by_words\<close>, from position \<open>i\<close> with the chunks made so far.\<close>

function chunk_loop :: "string list \<Rightarrow> int \<Rightarrow> int \<Rightarrow> nat \<Rightarrow> string list \<Rightarrow> string list" where
  "chunk_loop words target_words overlap i chunks =
     (if i < length words then
        let chunk = join_sp (py_slice words (int i) (int i + target_words));
            chunks' = (if strip chunk \<noteq> [] then chunks @ [chunk] else chunks);
            step = max 1 (target_words - overlap)
        in chunk_loop words target_words overlap (i + nat step) chunks'
      else chunks)"
  by pat_completeness auto
termination
  by (relation "measure (\<lambda>(words, target_words, overlap, i, chunks). length words - i)") auto

declare chunk_loop.simps [simp del]

definition chunk_by_words :: "string \<Rightarrow> int \<Rightarrow> int \<Rightarrow> string list" where
  "chunk_by_words text target_words overlap =
     (let words = split_ws (clean_text text)
      in if words = [] then [] else chunk_loop words target_words overlap 0 [])"


subsection \<open>Words and windows\<close>

definition wordlike :: "string \<Rightarrow> bool" where
  "wordlike w = (w \<noteq> [] \<and> (\<forall>c \<in> set w. \<not> isspace c))"

lemma split_ws_wordlike: "\<forall>w \<in> set (split_ws s). wordlike w"
proof (induction s rule: split_ws.induct)
  case (1 s)
  show ?case
  proof (cases "dropWhile isspace s")
    case Nil
    have "split_ws s = []" by (subst split_ws.simps) (simp only: Nil list.case)
    then show ?thesis by simp
  next
    case (Cons c r)
    have "\<not> isspace (hd (dropWhile isspace s))"
      by (rule hd_dropWhile) (simp add: Cons)
    then have c: "\<not> isspace c" by (simp add: Cons)
    have "wordlike (takeWhile (\<lambda>x. \<not> isspace x) (c # r))"
      using c by (auto simp: wordlike_def dest: set_takeWhileD)
    moreover have "\<forall>w \<in> set (split_ws (dropWhile (\<lambda>x. \<not> isspace x) (c # r))). wordlike w"
      using 1 Cons by simp
    moreover have "split_ws s = takeWhile (\<lambda>x. \<not> isspace x) (c # r) #
        split_ws (dropWhile (\<lambda>x. \<not> isspace x) (c # r))"
      using Cons by (subst split_ws.simps) simp
    ultimately show ?thesis by simp
  qed
qed

lemma split_ws_Nil: "split_ws [] = []"
  by (simp add: split_ws.simps[of "[]"])

lemma split_ws_lead: "isspace c \<Longrightarrow> split_ws (c # r) = split_ws r"
  by (simp add: split_ws.simps[of "c # r"] split_ws.simps[of r])

lemma split_ws_word:
  assumes "wordlike w" and "rest = [] \<or> isspace (hd rest)"
  shows "split_ws (w @ rest) = w # split_ws rest"
proof -
  from assms(1) obtain c r where w: "w = c # r" and c: "\<not> isspace c"
    and r: "\<forall>x \<in> set r. \<not> isspace x"
    by (cases w) (auto simp: wordlike_def)
  have d: "dropWhile isspace (w @ rest) = w @ rest" using w c by simp
  have t: "takeWhile (\<lambda>x. \<not> isspace x) (w @ rest) = w"
    using assms(2) w c r by (cases rest) (auto simp: takeWhile_append2 takeWhile_eq_all_conv)
  have e: "dropWhile (\<lambda>x. \<not> isspace x) (w @ rest) = rest"
    using assms(2) w c r by (cases rest) (auto simp: dropWhile_append2)
  show ?thesis
    using t e by (simp add: split_ws.simps[of "w @ rest"] d) (simp add: w)
qed

lemma split_ws_join_sp: "\<forall>w \<in> set ws. wordlike w \<Longrightarrow> split_ws (join_sp ws) = ws"
proof (induction ws rule: join_sp.induct)
  case 1
  show ?case by (simp add: split_ws_Nil)
next
  case (2 w)
  then have "split_ws (w @ []) = w # split_ws []" by (intro split_ws_word) simp_all
  then show ?case by (simp add: split_ws_Nil)
next
  case (3 w v ws)
  have sp: "isspace (CHR '' '')" by (simp add: isspace_def)
  have "split_ws (w @ CHR '' '' # join_sp (v # ws)) = w # split_ws (CHR '' '' # join_sp (v # ws))"
    using 3(2) sp by (intro split_ws_word) simp_all
  also have "split_ws (CHR '' '' # join_sp (v # ws)) = split_ws (join_sp (v # ws))"
    using sp by (rule split_ws_lead)
  also have "\<dots> = v # ws" using 3 by simp
  finally show ?case by simp
qed

lemma strip_eq_Nil: "strip s = [] \<longleftrightarrow> (\<forall>c \<in> set s. isspace c)"
proof -
  have "strip s = [] \<longleftrightarrow> (\<forall>c \<in> set (dropWhile isspace s). isspace c)"
    by (simp only: strip_def rev_is_Nil_conv dropWhile_eq_Nil_conv set_rev)
  also have "\<dots> \<longleftrightarrow> dropWhile isspace s = []"
  proof (cases "dropWhile isspace s")
    case Nil
    show ?thesis unfolding Nil by simp
  next
    case (Cons c r)
    have "\<not> isspace (hd (dropWhile isspace s))"
      by (rule hd_dropWhile) (simp add: Cons)
    then show ?thesis unfolding Cons by auto
  qed
  also have "\<dots> \<longleftrightarrow> (\<forall>c \<in> set s. isspace c)"
    by (simp add: dropWhile_eq_Nil_conv)
  finally show ?thesis .
qed

lemma join_sp_hd: "ws \<noteq> [] \<Longrightarrow> hd ws \<noteq> [] \<Longrightarrow> hd (hd ws) \<in> set (join_sp ws)"
  by (induction ws rule: join_sp.induct) auto

lemma strip_join_sp: "\<forall>w \<in> set ws. wordlike w \<Longrightarrow> ws \<noteq> [] \<Longrightarrow> strip (join_sp ws) \<noteq> []"
proof -
  assume a: "\<forall>w \<in> set ws. wordlike w" and n: "ws \<noteq> []"
  then have h: "wordlike (hd ws)" by simp
  then have "hd (hd ws) \<in> set (join_sp ws)"
    using n by (intro join_sp_hd) (simp_all add: wordlike_def)
  moreover have "\<not> isspace (hd (hd ws))" using h by (simp add: wordlike_def)
  ultimately show ?thesis unfolding strip_eq_Nil by blast
qed

lemma py_slice_window:
  "0 \<le> T \<Longrightarrow> py_slice xs (int i) (int i + T) = take (nat T) (drop i xs)"
  by (auto simp: py_slice_def Let_def min_def nat_diff_distrib' nat_add_distrib)

lemma ceil_div_step:
  fixes m step :: nat
  assumes "0 < step" and "0 < m"
  shows "(m + step - 1) div step = Suc ((m - step + step - 1) div step)"
proof (cases "m \<le> step")
  case True
  then have "m - step + step - 1 < step" using assms by simp
  then have r: "(m - step + step - 1) div step = 0" by simp
  have "step \<le> m + step - 1" using assms by simp
  moreover have "m + step - 1 < 2 * step" using True assms by simp
  ultimately have "(m + step - 1) div step = 1"
    by (metis Suc_1 div_nat_eqI mult.commute mult_Suc nat_mult_1_right plus_1_eq_Suc mult_2_right)
  with r show ?thesis by simp
next
  case False
  then have "m + step - 1 = (m - step + step - 1) + step" using assms by arith
  then have "(m + step - 1) div step = ((m - step + step - 1) + step) div step"
    by (rule arg_cong)
  also have "\<dots> = Suc ((m - step + step - 1) div step)"
    using assms(1) div_add_self2[of step "m - step + step - 1"] by linarith
  finally show ?thesis .
qed

lemma chunk_loop_closed:
  assumes w: "\<forall>w \<in> set words. wordlike w" and T: "0 < T" and st: "step = nat (max 1 (T - ov))"
  shows "chunk_loop words T ov i acc =
    acc @ map (\<lambda>k. join_sp (take (nat T) (drop (i + k * step) words)))
            [0..<(length words - i + step - 1) div step]"
proof (induction "length words - i" arbitrary: i acc rule: less_induct)
  case less
  have sp: "0 < step" using st by simp
  show ?case
  proof (cases "i < length words")
    case False
    then have "(length words - i + step - 1) div step = 0" using sp by simp
    then show ?thesis using False by (subst chunk_loop.simps) simp
  next
    case True
    let ?c = "join_sp (take (nat T) (drop i words))"
    let ?f = "\<lambda>i k. join_sp (take (nat T) (drop (i + k * step) words))"
    have ne: "take (nat T) (drop i words) \<noteq> []" using True T by simp
    have wl: "\<forall>w \<in> set (take (nat T) (drop i words)). wordlike w"
      using w by (meson in_set_dropD in_set_takeD)
    have keep: "strip ?c \<noteq> []" using wl ne by (rule strip_join_sp)
    have sl: "py_slice words (int i) (int i + T) = take (nat T) (drop i words)"
      using T by (intro py_slice_window) simp
    have unfold: "chunk_loop words T ov i acc = chunk_loop words T ov (i + step) (acc @ [?c])"
      using True keep by (subst chunk_loop.simps) (simp add: sl Let_def st)
    have "length words - (i + step) < length words - i" using True sp by simp
    then have ih: "chunk_loop words T ov (i + step) (acc @ [?c]) =
      (acc @ [?c]) @ map (?f (i + step)) [0..<(length words - (i + step) + step - 1) div step]"
      by (rule less)
    have cnt: "(length words - i + step - 1) div step =
      Suc ((length words - (i + step) + step - 1) div step)"
      using ceil_div_step[of step "length words - i"] sp True by simp
    have shift: "\<And>k. ?f (i + step) k = ?f i (Suc k)" by (simp add: add.assoc)
    show ?thesis
      unfolding unfold ih cnt by (simp add: map_upt_Suc shift del: upt_Suc)
  qed
qed

lemma chunk_by_words_closed:
  assumes ne: "split_ws (clean_text text) \<noteq> []" and T: "0 < T"
  shows "chunk_by_words text T ov =
    map (\<lambda>k. join_sp (take (nat T) (drop (k * nat (max 1 (T - ov))) (split_ws (clean_text text)))))
      [0..<(length (split_ws (clean_text text)) + nat (max 1 (T - ov)) - 1) div nat (max 1 (T - ov))]"
proof -
  have "chunk_loop (split_ws (clean_text text)) T ov 0 [] =
    [] @ map (\<lambda>k. join_sp (take (nat T) (drop (0 + k * nat (max 1 (T - ov))) (split_ws (clean_text text)))))
      [0..<(length (split_ws (clean_text text)) - 0 + nat (max 1 (T - ov)) - 1) div nat (max 1 (T - ov))]"
    using split_ws_wordlike T by (rule chunk_loop_closed) simp
  then show ?thesis using ne by (simp add: chunk_by_words_def Let_def)
qed

lemma window_covers:
  fixes W step T j :: nat
  assumes "0 < step" and "step \<le> T" and "j < W"
  shows "j div step < (W + step - 1) div step \<and> (j div step) * step \<le> j \<and>
         j < (j div step) * step + min T (W - (j div step) * step)"
proof -
  have "j div step \<le> (W - 1) div step" using assms(3) by (intro div_le_mono) simp
  moreover have "(W + step - 1) div step = Suc ((W - 1) div step)"
    using assms div_add_self2[of step "W - 1"] by (simp add: add.commute)
  ultimately have a: "j div step < (W + step - 1) div step" by simp
  have b: "(j div step) * step \<le> j" by simp
  have "j - (j div step) * step = j mod step" by (simp add: minus_div_mult_eq_mod)
  moreover have "j mod step < step" using assms(1) by simp
  ultimately have "j < (j div step) * step + T" using assms(2) b by linarith
  moreover have "j < (j div step) * step + (W - (j div step) * step)" using assms(3) b by simp
  ultimately have c: "j < (j div step) * step + min T (W - (j div step) * step)" by simp
  from a b c show ?thesis by simp
qed

lemma overlap_full:
  fixes a s t v W :: nat
  assumes "s = t - v" and "v < t" and "a + t \<le> W"
  shows "min v (W - (a + s)) = v"
  using assms by arith

text \<open>
  C3, as amended. Let the normalised text have \<open>W \<ge> 1\<close> words and let the overlap \<open>ov\<close>
  (120 at every call) satisfy \<open>0 \<le> ov < T\<close>. With \<open>step = max(1, T - ov)\<close> there are
  \<open>\<lceil>W / step\<rceil>\<close> chunks; chunk \<open>k\<close> holds the words from \<open>k * step\<close> up to
  \<open>min(W, k * step + T)\<close>, so the first starts at word 0 and every word is in some chunk.
  Two consecutive chunks share the words of the earlier one after its first \<open>step\<close>,
  which are the first \<open>ov\<close> words of the later one: \<open>min(ov, W - (k + 1) * step)\<close> words,
  and exactly \<open>ov\<close> whenever the earlier chunk has its full \<open>T\<close> words.
\<close>

theorem chunk_by_words_windows:
  assumes ne: "split_ws (clean_text text) \<noteq> []" and ov: "0 \<le> ov" and T: "ov < T"
  shows "let words = split_ws (clean_text text);
             W = length words;
             step = nat (max 1 (T - ov));
             n = (W + step - 1) div step;
             cs = chunk_by_words text T ov
         in length cs = n \<and>
            (\<forall>k<n. split_ws (cs ! k) = take (nat T) (drop (k * step) words)) \<and>
            (\<forall>j<W. \<exists>k<n. k * step \<le> j \<and> j < k * step + length (split_ws (cs ! k))) \<and>
            (\<forall>k. k + 1 < n \<longrightarrow>
               drop step (split_ws (cs ! k)) = take (nat ov) (split_ws (cs ! (k + 1))) \<and>
               length (drop step (split_ws (cs ! k))) = min (nat ov) (W - (k + 1) * step) \<and>
               (k * step + nat T \<le> W \<longrightarrow> length (drop step (split_ws (cs ! k))) = nat ov))"
proof -
  let ?words = "split_ws (clean_text text)"
  let ?W = "length ?words"
  let ?step = "nat (max 1 (T - ov))"
  let ?n = "(?W + ?step - 1) div ?step"
  let ?cs = "chunk_by_words text T ov"
  let ?win = "\<lambda>k. take (nat T) (drop (k * ?step) ?words)"
  have Tp: "0 < T" using ov T by simp
  have step: "?step = nat T - nat ov" "0 < ?step" "?step \<le> nat T" using ov T by auto
  have cs: "?cs = map (\<lambda>k. join_sp (?win k)) [0..<?n]"
    using ne Tp by (rule chunk_by_words_closed)
  have len: "length ?cs = ?n" unfolding cs by simp
  have wl: "\<And>k. \<forall>w \<in> set (?win k). wordlike w"
    using split_ws_wordlike by (meson in_set_dropD in_set_takeD)
  have win: "\<And>k. k < ?n \<Longrightarrow> split_ws (?cs ! k) = ?win k"
    unfolding cs using wl by (simp add: split_ws_join_sp)
  have wlen: "\<And>k. length (?win k) = min (nat T) (?W - k * ?step)" by (simp add: min.commute)
  have cover: "\<forall>j<?W. \<exists>k<?n. k * ?step \<le> j \<and> j < k * ?step + length (split_ws (?cs ! k))"
  proof (intro allI impI)
    fix j assume j: "j < ?W"
    have c: "j div ?step < ?n \<and> (j div ?step) * ?step \<le> j \<and>
         j < (j div ?step) * ?step + min (nat T) (?W - (j div ?step) * ?step)"
      using step(2,3) j by (rule window_covers)
    then have "split_ws (?cs ! (j div ?step)) = ?win (j div ?step)" using win by blast
    with c show "\<exists>k<?n. k * ?step \<le> j \<and> j < k * ?step + length (split_ws (?cs ! k))"
      using wlen by (intro exI[of _ "j div ?step"]) simp
  qed
  have overlap: "\<forall>k. k + 1 < ?n \<longrightarrow>
               drop ?step (split_ws (?cs ! k)) = take (nat ov) (split_ws (?cs ! (k + 1))) \<and>
               length (drop ?step (split_ws (?cs ! k))) = min (nat ov) (?W - (k + 1) * ?step) \<and>
               (k * ?step + nat T \<le> ?W \<longrightarrow> length (drop ?step (split_ws (?cs ! k))) = nat ov)"
  proof (intro allI impI)
    fix k assume k: "k + 1 < ?n"
    then have w0: "split_ws (?cs ! k) = ?win k" and w1: "split_ws (?cs ! (k + 1)) = ?win (k + 1)"
      using win by simp_all
    have d: "drop ?step (?win k) = take (nat T - ?step) (drop ((k + 1) * ?step) ?words)"
      by (simp add: drop_take add.commute)
    have o: "nat T - ?step = nat ov" using step(1) ov T by simp
    have e: "drop ?step (?win k) = take (nat ov) (?win (k + 1))"
      unfolding d o using ov T by (simp add: min_def)
    have l: "length (drop ?step (?win k)) = min (nat ov) (?W - (k + 1) * ?step)"
      unfolding d o by (simp add: min.commute)
    have vt: "nat ov < nat T" using ov T by simp
    have ks: "(k + 1) * ?step = k * ?step + ?step" by simp
    have f: "k * ?step + nat T \<le> ?W \<longrightarrow> length (drop ?step (?win k)) = nat ov"
      unfolding l ks using overlap_full[OF step(1) vt] by blast
    show "drop ?step (split_ws (?cs ! k)) = take (nat ov) (split_ws (?cs ! (k + 1))) \<and>
               length (drop ?step (split_ws (?cs ! k))) = min (nat ov) (?W - (k + 1) * ?step) \<and>
               (k * ?step + nat T \<le> ?W \<longrightarrow> length (drop ?step (split_ws (?cs ! k))) = nat ov)"
      unfolding w0 w1 using e l f by blast
  qed
  show ?thesis
    unfolding Let_def using len win cover overlap by blast
qed

text \<open>Witness for C3: five words in windows of three with an overlap of one.\<close>

theorem chunk_by_words_windows_witness:
  "split_ws (clean_text ''a b c d e'') \<noteq> [] \<and> (0::int) \<le> 1 \<and> (1::int) < 3 \<and>
   chunk_by_words ''a b c d e'' 3 1 = [''a b c'', ''c d e'', ''e''] \<and>
   length (chunk_by_words ''a b c d e'' 3 1) =
     (length (split_ws (clean_text ''a b c d e'')) + nat (max 1 (3 - 1)) - 1) div nat (max 1 (3 - 1))"
proof -
  have ne: "split_ws (clean_text ''a b c d e'') \<noteq> []" by code_simp
  have a: "(0::int) \<le> 1" by simp
  have b: "(1::int) < 3" by simp
  have v: "chunk_by_words ''a b c d e'' 3 1 = [''a b c'', ''c d e'', ''e'']" by code_simp
  have "length (chunk_by_words ''a b c d e'' 3 1) =
     (length (split_ws (clean_text ''a b c d e'')) + nat (max 1 (3 - 1)) - 1) div nat (max 1 (3 - 1))"
    using chunk_by_words_windows [OF ne a b] unfolding Let_def by (rule conjunct1)
  with ne a b v show ?thesis by blast
qed

text \<open>
  Counterexample to C3 as stated: three words, a target of 121 and the overlap 120 give
  three chunks; the first two are consecutive, neither is the final chunk, and they share
  the two words \<^verbatim>\<open>b c\<close>, not 120: the first chunk has three words only.
\<close>

theorem chunk_by_words_short_overlap:
  "chunk_by_words ''a b c'' 121 120 = [''a b c'', ''b c'', ''c''] \<and>
   split_ws (chunk_by_words ''a b c'' 121 120 ! 0) = [''a'', ''b'', ''c''] \<and>
   split_ws (chunk_by_words ''a b c'' 121 120 ! 1) = [''b'', ''c''] \<and>
   length (split_ws (chunk_by_words ''a b c'' 121 120 ! 0)) < 120"
  by code_simp

section \<open>Python values\<close>

text \<open>
  The values that \<^verbatim>\<open>json.load\<close> and \<^verbatim>\<open>json.loads\<close> return. \<open>PFloat q\<close> is a finite float
  of value \<open>q\<close>; \<open>PInf\<close>, \<open>PNegInf\<close> and \<open>PNaN\<close> are the other floats. A dictionary is the
  list of its items, in insertion order; a key is looked up with \<open>map_of\<close>.
\<close>

datatype pyval =
    PNone
  | PBool bool
  | PInt int
  | PFloat rat
  | PInf
  | PNegInf
  | PNaN
  | PStr string
  | PList "pyval list"
  | PDict "(string \<times> pyval) list"

type_synonym pydict = "(string \<times> pyval) list"

text \<open>The number a value stands for in a comparison: \<^verbatim>\<open>True == 1 == 1.0\<close>.\<close>

fun num_val :: "pyval \<Rightarrow> rat option" where
  "num_val (PBool b) = Some (if b then 1 else 0)"
| "num_val (PInt n) = Some (of_int n)"
| "num_val (PFloat q) = Some q"
| "num_val _ = None"

text \<open>Python's \<^verbatim>\<open>==\<close> on these values.\<close>

fun py_eq :: "pyval \<Rightarrow> pyval \<Rightarrow> bool" where
  "py_eq (PList xs) (PList ys) = list_all2 py_eq xs ys"
| "py_eq (PDict a) (PDict b) =
     (set (map fst a) = set (map fst b) \<and>
      list_all (\<lambda>(k, v). case map_of b k of Some w \<Rightarrow> py_eq v w | None \<Rightarrow> False) a)"
| "py_eq (PStr s) (PStr t) = (s = t)"
| "py_eq PNone PNone = True"
| "py_eq PInf PInf = True"
| "py_eq PNegInf PNegInf = True"
| "py_eq x y = (case (num_val x, num_val y) of (Some p, Some q) \<Rightarrow> p = q | _ \<Rightarrow> False)"

text \<open>\<^verbatim>\<open>d.get(k, default)\<close> and \<^verbatim>\<open>d[k] = v\<close>\<close>

definition dict_get :: "pydict \<Rightarrow> string \<Rightarrow> pyval \<Rightarrow> pyval" where
  "dict_get d k dflt = (case map_of d k of Some v \<Rightarrow> v | None \<Rightarrow> dflt)"

fun dict_set :: "pydict \<Rightarrow> string \<Rightarrow> pyval \<Rightarrow> pydict" where
  "dict_set [] k v = [(k, v)]"
| "dict_set ((k', v') # d) k v = (if k' = k then (k, v) # d else (k', v') # dict_set d k v)"

section \<open>Usage ledger\<close>

text \<open>
  What the ledger reads from its surroundings: the default cap, which the module takes
  from the environment variable \<^verbatim>\<open>OPENAI_MONTHLY_CAP\<close> (50000 when unset); the current
  month \<^verbatim>\<open>datetime.utcnow().strftime("%Y-%m")\<close>, one value for the whole of a call; and
  the conversion \<^verbatim>\<open>int(s)\<close> of a string, \<open>None\<close> where it raises.
\<close>

record env =
  DEFAULT_CAP_CARDS_PER_MONTH :: int
  utc_month :: string
  int_of_str :: "string \<Rightarrow> int option"

definition USAGE_SCHEMA_VERSION :: int where
  "USAGE_SCHEMA_VERSION = 1"

definition usage_defaults :: "env \<Rightarrow> pydict" where
  "usage_defaults e =
     [(''version'', PInt USAGE_SCHEMA_VERSION),
      (''month'', PStr (utc_month e)),
      (''cards_used'', PInt 0),
      (''cap'', PInt (DEFAULT_CAP_CARDS_PER_MONTH e))]"

text \<open>\<^verbatim>\<open>int(v)\<close>; \<open>None\<close> where it raises (every exception is caught by the caller).\<close>

fun py_int :: "env \<Rightarrow> pyval \<Rightarrow> int option" where
  "py_int e (PBool b) = Some (if b then 1 else 0)"
| "py_int e (PInt n) = Some n"
| "py_int e (PFloat q) = Some (if 0 \<le> q then \<lfloor>q\<rfloor> else \<lceil>q\<rceil>)"
| "py_int e (PStr s) = int_of_str e s"
| "py_int e _ = None"

definition validate_and_patch_usage :: "env \<Rightarrow> pyval \<Rightarrow> pydict" where
  "validate_and_patch_usage e data =
     (let base = usage_defaults e in
      case data of
        PDict d \<Rightarrow>
          (let out = map (\<lambda>(k, b). (k, case map_of d k of Some v \<Rightarrow> v | None \<Rightarrow> b)) base;
               current_month = utc_month e;
               out = (if \<not> py_eq (dict_get out ''month'' PNone) (PStr current_month)
                      then dict_set (dict_set out ''month'' (PStr current_month))
                             ''cards_used'' (PInt 0)
                      else out);
               cards_used = (case py_int e (dict_get out ''cards_used'' (PInt 0)) of
                               Some n \<Rightarrow> n | None \<Rightarrow> 0);
               cap = (case py_int e (dict_get out ''cap'' (PInt (DEFAULT_CAP_CARDS_PER_MONTH e))) of
                        Some n \<Rightarrow> n | None \<Rightarrow> DEFAULT_CAP_CARDS_PER_MONTH e);
               out = dict_set out ''cards_used'' (PInt (max 0 cards_used));
               out = dict_set out ''cap'' (PInt (max 0 cap));
               out = dict_set out ''version'' (PInt USAGE_SCHEMA_VERSION)
           in out)
      | _ \<Rightarrow> base)"

text \<open>
  The usage file: absent, present but not readable as JSON, or holding a JSON value.
  Writing the file is assumed to succeed.
\<close>

datatype usage_file = Missing | Unreadable | Stored pyval

definition load_usage :: "env \<Rightarrow> usage_file \<Rightarrow> pydict \<times> usage_file" where
  "load_usage e f =
     (case f of
        Missing \<Rightarrow> (usage_defaults e, Stored (PDict (usage_defaults e)))
      | Unreadable \<Rightarrow>
          (let raw = PDict []; data = validate_and_patch_usage e raw
           in (data, if \<not> py_eq raw (PDict data) then Stored (PDict data) else f))
      | Stored raw \<Rightarrow>
          (let data = validate_and_patch_usage e raw
           in (data, if \<not> py_eq raw (PDict data) then Stored (PDict data) else f)))"

definition save_usage :: "env \<Rightarrow> pyval \<Rightarrow> usage_file" where
  "save_usage e data = Stored (PDict (validate_and_patch_usage e data))"


subsection \<open>The shape of a validated record\<close>

lemma py_eq_PStr: "py_eq x (PStr t) \<longleftrightarrow> x = PStr t"
  by (cases x) auto

text \<open>A dictionary with the four keys in the order of the defaults.\<close>

definition usage_dict :: "pyval \<Rightarrow> pyval \<Rightarrow> pyval \<Rightarrow> pyval \<Rightarrow> pydict" where
  "usage_dict v m u c = [(''version'', v), (''month'', m), (''cards_used'', u), (''cap'', c)]"

lemma usage_dict_get:
  "dict_get (usage_dict v m u c) ''version'' x = v"
  "dict_get (usage_dict v m u c) ''month'' x = m"
  "dict_get (usage_dict v m u c) ''cards_used'' x = u"
  "dict_get (usage_dict v m u c) ''cap'' x = c"
  by (simp_all add: usage_dict_def dict_get_def)

lemma usage_dict_set:
  "dict_set (usage_dict v m u c) ''version'' x = usage_dict x m u c"
  "dict_set (usage_dict v m u c) ''month'' x = usage_dict v x u c"
  "dict_set (usage_dict v m u c) ''cards_used'' x = usage_dict v m x c"
  "dict_set (usage_dict v m u c) ''cap'' x = usage_dict v m u x"
  by (simp_all add: usage_dict_def)

lemma usage_defaults_dict:
  "usage_defaults e = usage_dict (PInt USAGE_SCHEMA_VERSION) (PStr (utc_month e)) (PInt 0)
     (PInt (DEFAULT_CAP_CARDS_PER_MONTH e))"
  by (simp add: usage_defaults_def usage_dict_def)

lemma merge_defaults_dict:
  "map (\<lambda>(k, b). (k, case map_of d k of Some v \<Rightarrow> v | None \<Rightarrow> b)) (usage_dict v m u c) =
   usage_dict (dict_get d ''version'' v) (dict_get d ''month'' m)
     (dict_get d ''cards_used'' u) (dict_get d ''cap'' c)"
  by (simp add: usage_dict_def dict_get_def)

text \<open>The two counters of a validated dictionary, as the code computes them.\<close>

definition healed_used :: "env \<Rightarrow> pydict \<Rightarrow> int" where
  "healed_used e d =
     (if \<not> py_eq (dict_get d ''month'' (PStr (utc_month e))) (PStr (utc_month e)) then 0
      else max 0 (case py_int e (dict_get d ''cards_used'' (PInt 0)) of Some n \<Rightarrow> n | None \<Rightarrow> 0))"

definition healed_cap :: "env \<Rightarrow> pydict \<Rightarrow> int" where
  "healed_cap e d =
     max 0 (case py_int e (dict_get d ''cap'' (PInt (DEFAULT_CAP_CARDS_PER_MONTH e))) of
              Some n \<Rightarrow> n | None \<Rightarrow> DEFAULT_CAP_CARDS_PER_MONTH e)"

lemma validate_dict:
  "validate_and_patch_usage e (PDict d) =
   usage_dict (PInt USAGE_SCHEMA_VERSION) (PStr (utc_month e))
     (PInt (healed_used e d)) (PInt (healed_cap e d))"
proof (cases "py_eq (dict_get d ''month'' (PStr (utc_month e))) (PStr (utc_month e))")
  case True
  then have m: "dict_get d ''month'' (PStr (utc_month e)) = PStr (utc_month e)"
    by (simp add: py_eq_PStr)
  show ?thesis
    unfolding validate_and_patch_usage_def usage_defaults_dict Let_def pyval.case
      merge_defaults_dict usage_dict_get
    by (simp add: m usage_dict_get usage_dict_set healed_used_def healed_cap_def)
next
  case False
  show ?thesis
    unfolding validate_and_patch_usage_def usage_defaults_dict Let_def pyval.case
      merge_defaults_dict usage_dict_get
    using False by (simp add: usage_dict_get usage_dict_set healed_used_def healed_cap_def)
qed

lemma validate_not_dict:
  "\<not> (\<exists>d. data = PDict d) \<Longrightarrow> validate_and_patch_usage e data = usage_defaults e"
  by (cases data) (simp_all add: validate_and_patch_usage_def)


lemma load_usage_stored_dict:
  "load_usage e (Stored (PDict d)) =
     (validate_and_patch_usage e (PDict d),
      if \<not> py_eq (PDict d) (PDict (validate_and_patch_usage e (PDict d)))
      then Stored (PDict (validate_and_patch_usage e (PDict d))) else Stored (PDict d))"
  by (simp add: load_usage_def Let_def)

lemma rollover_differs:
  assumes "map_of d ''month'' = Some m" and "\<not> py_eq m (PStr mon)"
  shows "\<not> py_eq (PDict d) (PDict (usage_dict v (PStr mon) u c))"
proof
  assume eq: "py_eq (PDict d) (PDict (usage_dict v (PStr mon) u c))"
  have "(''month'', m) \<in> set d" using assms(1) by (rule map_of_SomeD)
  with eq have "case map_of (usage_dict v (PStr mon) u c) ''month'' of
      Some w \<Rightarrow> py_eq m w | None \<Rightarrow> False"
    by (auto simp: list_all_iff)
  then have "py_eq m (PStr mon)" by (simp add: usage_dict_def)
  with assms(2) show False ..
qed

text \<open>
  C6. Let the usage file hold a dictionary \<open>d\<close>. If its month is not the current month
  (Python's \<^verbatim>\<open>!=\<close>), \<open>load_usage\<close> returns the record of the current month with
  \<open>cards_used\<close> 0 and writes that record to the file; the cap of the record is the cap of
  \<open>d\<close> whenever that is a non-negative integer, as it is in every record the ledger
  has written. If the month is the current one and both counters are non-negative
  integers, the record returned has the same \<open>cards_used\<close> and \<open>cap\<close>.
\<close>

theorem load_usage_month_rollover:
  "(map_of d ''month'' = Some m \<and> \<not> py_eq m (PStr (utc_month e)) \<longrightarrow>
      (\<exists>c'. 0 \<le> c' \<and>
        fst (load_usage e (Stored (PDict d))) =
          [(''version'', PInt USAGE_SCHEMA_VERSION), (''month'', PStr (utc_month e)),
           (''cards_used'', PInt 0), (''cap'', PInt c')] \<and>
        (map_of d ''cap'' = Some (PInt c) \<and> 0 \<le> c \<longrightarrow> c' = c)) \<and>
      snd (load_usage e (Stored (PDict d))) =
        Stored (PDict (fst (load_usage e (Stored (PDict d)))))) \<and>
   (map_of d ''month'' = Some (PStr (utc_month e)) \<and>
    map_of d ''cards_used'' = Some (PInt u) \<and> 0 \<le> u \<and>
    map_of d ''cap'' = Some (PInt c) \<and> 0 \<le> c \<longrightarrow>
      fst (load_usage e (Stored (PDict d))) =
        [(''version'', PInt USAGE_SCHEMA_VERSION), (''month'', PStr (utc_month e)),
         (''cards_used'', PInt u), (''cap'', PInt c)])"
proof (intro conjI impI)
  assume a: "map_of d ''month'' = Some m \<and> \<not> py_eq m (PStr (utc_month e))"
  then have hu: "healed_used e d = 0"
    by (simp add: healed_used_def dict_get_def)
  have hc: "0 \<le> healed_cap e d" by (simp add: healed_cap_def)
  have pc: "map_of d ''cap'' = Some (PInt c) \<and> 0 \<le> c \<longrightarrow> healed_cap e d = c"
    by (simp add: healed_cap_def dict_get_def)
  show "\<exists>c'. 0 \<le> c' \<and>
        fst (load_usage e (Stored (PDict d))) =
          [(''version'', PInt USAGE_SCHEMA_VERSION), (''month'', PStr (utc_month e)),
           (''cards_used'', PInt 0), (''cap'', PInt c')] \<and>
        (map_of d ''cap'' = Some (PInt c) \<and> 0 \<le> c \<longrightarrow> c' = c)"
    using hc pc
    by (intro exI[of _ "healed_cap e d"])
       (simp add: load_usage_stored_dict validate_dict hu usage_dict_def)
  from a have a1: "map_of d ''month'' = Some m" and a2: "\<not> py_eq m (PStr (utc_month e))"
    by blast+
  have "\<not> py_eq (PDict d) (PDict (validate_and_patch_usage e (PDict d)))"
    unfolding validate_dict using a1 a2 by (rule rollover_differs)
  then show "snd (load_usage e (Stored (PDict d))) =
        Stored (PDict (fst (load_usage e (Stored (PDict d)))))"
    by (simp add: load_usage_stored_dict)
next
  assume b: "map_of d ''month'' = Some (PStr (utc_month e)) \<and>
    map_of d ''cards_used'' = Some (PInt u) \<and> 0 \<le> u \<and>
    map_of d ''cap'' = Some (PInt c) \<and> 0 \<le> c"
  then have "healed_used e d = u" "healed_cap e d = c"
    by (simp_all add: healed_used_def healed_cap_def dict_get_def)
  then show "fst (load_usage e (Stored (PDict d))) =
        [(''version'', PInt USAGE_SCHEMA_VERSION), (''month'', PStr (utc_month e)),
         (''cards_used'', PInt u), (''cap'', PInt c)]"
    by (simp add: load_usage_stored_dict validate_dict usage_dict_def)
qed


subsection \<open>A concrete environment\<close>

text \<open>
  \<^verbatim>\<open>int(s)\<close> on a string: blanks around, an optional sign, decimal digits, single
  underscores between digits. (The limit that recent Python versions put on the number of
  digits is left out.)
\<close>

fun int_digits :: "int \<Rightarrow> string \<Rightarrow> int option" where
  "int_digits acc [] = Some acc"
| "int_digits acc (c # r) =
     (if isdigit c then int_digits (10 * acc + (int (of_char c) - 48)) r
      else if c = CHR ''_'' \<and> r \<noteq> [] \<and> isdigit (hd r) then int_digits acc r
      else None)"

definition int_of_decimal :: "string \<Rightarrow> int option" where
  "int_of_decimal s =
     (case strip s of
        [] \<Rightarrow> None
      | c # r \<Rightarrow>
          (let body = (if c = CHR ''-'' \<or> c = CHR ''+'' then r else c # r)
           in case body of
                [] \<Rightarrow> None
              | d # _ \<Rightarrow>
                  if isdigit d
                  then map_option (\<lambda>n. if c = CHR ''-'' then - n else n) (int_digits 0 body)
                  else None))"

text \<open>November 2026 with the given default cap.\<close>

definition env_with_cap :: "int \<Rightarrow> env" where
  "env_with_cap cap =
     \<lparr>DEFAULT_CAP_CARDS_PER_MONTH = cap, utc_month = ''2026-11'', int_of_str = int_of_decimal\<rparr>"


text \<open>
  Witness for C6: a record of October 2026 read in November 2026, and the same record
  dated November.
\<close>

theorem load_usage_month_rollover_witness:
  "load_usage (env_with_cap 50000)
     (Stored (PDict [(''version'', PInt 1), (''month'', PStr ''2026-10''),
                     (''cards_used'', PInt 7), (''cap'', PInt 100)])) =
     ([(''version'', PInt 1), (''month'', PStr ''2026-11''),
       (''cards_used'', PInt 0), (''cap'', PInt 100)],
      Stored (PDict [(''version'', PInt 1), (''month'', PStr ''2026-11''),
                     (''cards_used'', PInt 0), (''cap'', PInt 100)])) \<and>
   fst (load_usage (env_with_cap 50000)
     (Stored (PDict [(''version'', PInt 1), (''month'', PStr ''2026-11''),
                     (''cards_used'', PInt 7), (''cap'', PInt 100)]))) =
     [(''version'', PInt 1), (''month'', PStr ''2026-11''),
      (''cards_used'', PInt 7), (''cap'', PInt 100)]"
proof -
  let ?old = "[(''version'', PInt 1), (''month'', PStr ''2026-10''),
               (''cards_used'', PInt 7), (''cap'', PInt 100)]"
  let ?cur = "[(''version'', PInt 1), (''month'', PStr ''2026-11''),
               (''cards_used'', PInt 7), (''cap'', PInt 100)]"
  have m: "utc_month (env_with_cap 50000) = ''2026-11''" by (simp add: env_with_cap_def)
  have h1: "map_of ?old ''month'' = Some (PStr ''2026-10'') \<and>
            \<not> py_eq (PStr ''2026-10'') (PStr (utc_month (env_with_cap 50000)))"
    unfolding m by simp
  have h2: "map_of ?old ''cap'' = Some (PInt 100) \<and> (0::int) \<le> 100" by simp
  have h3: "map_of ?cur ''month'' = Some (PStr (utc_month (env_with_cap 50000))) \<and>
    map_of ?cur ''cards_used'' = Some (PInt 7) \<and> (0::int) \<le> 7 \<and>
    map_of ?cur ''cap'' = Some (PInt 100) \<and> (0::int) \<le> 100"
    unfolding m by simp
  have r1: "\<exists>c'. fst (load_usage (env_with_cap 50000) (Stored (PDict ?old))) =
          [(''version'', PInt USAGE_SCHEMA_VERSION), (''month'', PStr (utc_month (env_with_cap 50000))),
           (''cards_used'', PInt 0), (''cap'', PInt c')] \<and> c' = 100"
    using load_usage_month_rollover [of ?old "PStr ''2026-10''" "env_with_cap 50000" 100 7] h1 h2
    by blast
  have r2: "snd (load_usage (env_with_cap 50000) (Stored (PDict ?old))) =
        Stored (PDict (fst (load_usage (env_with_cap 50000) (Stored (PDict ?old)))))"
    using load_usage_month_rollover [of ?old "PStr ''2026-10''" "env_with_cap 50000" 100 7] h1
    by blast
  have r3: "fst (load_usage (env_with_cap 50000) (Stored (PDict ?cur))) =
        [(''version'', PInt USAGE_SCHEMA_VERSION), (''month'', PStr (utc_month (env_with_cap 50000))),
         (''cards_used'', PInt 7), (''cap'', PInt 100)]"
    using load_usage_month_rollover [of ?cur "PStr ''2026-10''" "env_with_cap 50000" 100 7] h3
    by blast
  from r1 have f: "fst (load_usage (env_with_cap 50000) (Stored (PDict ?old))) =
          [(''version'', PInt 1), (''month'', PStr ''2026-11''),
           (''cards_used'', PInt 0), (''cap'', PInt 100)]"
    unfolding m USAGE_SCHEMA_VERSION_def by blast
  show ?thesis
    using f r2 r3 unfolding m USAGE_SCHEMA_VERSION_def by (simp add: prod_eq_iff)
qed



section \<open>JSON parsing helper\<close>

text \<open>\<^verbatim>\<open>s.find(c)\<close> and \<^verbatim>\<open>s.rfind(c)\<close>: the first and the last index of \<open>c\<close>, or \<open>-1\<close>.\<close>

definition py_find :: "char \<Rightarrow> string \<Rightarrow> int" where
  "py_find c s = (if c \<in> set s then int (length (takeWhile (\<lambda>x. x \<noteq> c) s)) else - 1)"

definition py_rfind :: "char \<Rightarrow> string \<Rightarrow> int" where
  "py_rfind c s =
     (if c \<in> set s then int (length s) - 1 - int (length (takeWhile (\<lambda>x. x \<noteq> c) (rev s)))
      else - 1)"

datatype json_error = JSONDecodeError

text \<open>
  \<open>loads\<close> stands for \<^verbatim>\<open>json.loads\<close> on a string: \<open>None\<close> where it raises. Both the
  error of the second attempt and the re-raised error of the first are a
  \<^verbatim>\<open>JSONDecodeError\<close>.
\<close>

definition parse_json_array :: "(string \<Rightarrow> 'v option) \<Rightarrow> string \<Rightarrow> json_error + 'v" where
  "parse_json_array loads s =
     (case loads s of
        Some v \<Rightarrow> Inr v
      | None \<Rightarrow>
          (let start = py_find (CHR ''['') s;
               end = py_rfind (CHR '']'') s + 1
           in if start \<noteq> - 1 \<and> end > start
              then (case loads (py_slice s start end) of
                      Some v \<Rightarrow> Inr v
                    | None \<Rightarrow> Inl JSONDecodeError)
              else Inl JSONDecodeError))"

subsection \<open>A model of the JSON grammar\<close>

text \<open>
  \<open>json_loads\<close> follows the grammar that \<^verbatim>\<open>json.loads\<close> accepts, on strings of code points
  below 256. It is used to evaluate concrete payloads; the statements about
  \<open>parse_json_array\<close> hold for every \<open>loads\<close>. A number with a fraction or an exponent
  becomes \<open>PFloat\<close> of its decimal value (Python rounds it to a double); an escape
  \<^verbatim>\<open>\uXXXX\<close> above 255 has no image in the modelled alphabet and gives \<open>None\<close>; the
  recursion limit of the Python parser is left out.
\<close>

definition json_ws :: "char \<Rightarrow> bool" where
  "json_ws c = (c = CHR '' '' \<or> c = CHR 0x09 \<or> c = CHR 0x0A \<or> c = CHR 0x0D)"

definition skip_ws :: "string \<Rightarrow> string" where
  "skip_ws s = dropWhile json_ws s"

definition dec_val :: "string \<Rightarrow> nat" where
  "dec_val ds = foldl (\<lambda>a c. 10 * a + (of_char c - 48)) 0 ds"

definition hex_digit :: "char \<Rightarrow> nat option" where
  "hex_digit c = (let n = (of_char c :: nat) in
     if 48 \<le> n \<and> n \<le> 57 then Some (n - 48)
     else if 65 \<le> n \<and> n \<le> 70 then Some (n - 55)
     else if 97 \<le> n \<and> n \<le> 102 then Some (n - 87)
     else None)"

definition hex4 :: "string \<Rightarrow> nat option" where
  "hex4 s = (case map hex_digit (take 4 s) of
     [Some a, Some b, Some c, Some d] \<Rightarrow> Some (((a * 16 + b) * 16 + c) * 16 + d)
   | _ \<Rightarrow> None)"

definition unescape :: "char \<Rightarrow> char option" where
  "unescape c =
     (if c = CHR 0x22 \<or> c = CHR 0x5C \<or> c = CHR ''/'' then Some c
      else if c = CHR ''b'' then Some (CHR 0x08)
      else if c = CHR ''f'' then Some (CHR 0x0C)
      else if c = CHR ''n'' then Some (CHR 0x0A)
      else if c = CHR ''r'' then Some (CHR 0x0D)
      else if c = CHR ''t'' then Some (CHR 0x09)
      else None)"

text \<open>The body of a string, after the opening quote; the fuel bounds the characters read.\<close>

fun str_body :: "nat \<Rightarrow> string \<Rightarrow> string \<Rightarrow> (string \<times> string) option" where
  "str_body 0 s acc = None"
| "str_body (Suc n) [] acc = None"
| "str_body (Suc n) (c # r) acc =
     (if c = CHR 0x22 then Some (rev acc, r)
      else if c = CHR 0x5C then
        (case r of
           [] \<Rightarrow> None
         | e # r' \<Rightarrow>
             if e = CHR ''u'' then
               (case hex4 r' of
                  Some k \<Rightarrow> if k < 256 then str_body n (drop 4 r') (char_of k # acc) else None
                | None \<Rightarrow> None)
             else (case unescape e of
                     Some d \<Rightarrow> str_body n r' (d # acc)
                   | None \<Rightarrow> None))
      else if (of_char c :: nat) < 32 then None
      else str_body n r (c # acc))"

definition parse_string :: "string \<Rightarrow> (string \<times> string) option" where
  "parse_string s = str_body (length s) s []"

text \<open>
  A number: \<^verbatim>\<open>(-?(?:0|[1-9][0-9]*))(\.[0-9]+)?([eE][-+]?[0-9]+)?\<close>, the longest match at
  the start of \<open>s\<close>.
\<close>

definition parse_number :: "string \<Rightarrow> (pyval \<times> string) option" where
  "parse_number s =
     (let neg = (s \<noteq> [] \<and> hd s = CHR ''-'');
          s1 = (if neg then tl s else s)
      in if s1 = [] \<or> \<not> isdigit (hd s1) then None
         else
           let ip = (if hd s1 = CHR ''0'' then [hd s1] else takeWhile isdigit s1);
               r1 = drop (length ip) s1;
               has_frac = (r1 \<noteq> [] \<and> hd r1 = CHR ''.'' \<and> tl r1 \<noteq> [] \<and> isdigit (hd (tl r1)));
               fp = (if has_frac then takeWhile isdigit (tl r1) else []);
               r2 = (if has_frac then dropWhile isdigit (tl r1) else r1);
               after_e = (if r2 \<noteq> [] \<and> (hd r2 = CHR ''e'' \<or> hd r2 = CHR ''E'') then tl r2 else []);
               eneg = (after_e \<noteq> [] \<and> hd after_e = CHR ''-'');
               edigits = (if after_e \<noteq> [] \<and> (hd after_e = CHR ''-'' \<or> hd after_e = CHR ''+'')
                          then tl after_e else after_e);
               has_exp = (edigits \<noteq> [] \<and> isdigit (hd edigits));
               ex = (if has_exp then takeWhile isdigit edigits else []);
               r3 = (if has_exp then dropWhile isdigit edigits else r2);
               sgn = (if neg then - 1 else 1)
           in if \<not> has_frac \<and> \<not> has_exp then Some (PInt (sgn * int (dec_val ip)), r3)
              else
                let mant = (of_nat (dec_val (ip @ fp)) :: rat) / 10 ^ length fp;
                    scale = (if eneg then 1 / 10 ^ dec_val ex else 10 ^ dec_val ex)
                in Some (PFloat (of_int sgn * mant * scale), r3))"

definition starts_with :: "string \<Rightarrow> string \<Rightarrow> bool" where
  "starts_with p s = (take (length p) s = p)"

text \<open>
  One value at the start of \<open>s\<close>, as \<^verbatim>\<open>scan_once\<close> reads it; \<open>parse_items\<close> and
  \<open>parse_members\<close> read the rest of an array and of an object after their first
  character. The fuel bounds the depth of the recursion.
\<close>

fun parse_value :: "nat \<Rightarrow> string \<Rightarrow> (pyval \<times> string) option"
  and parse_items :: "nat \<Rightarrow> string \<Rightarrow> pyval list \<Rightarrow> (pyval \<times> string) option"
  and parse_members :: "nat \<Rightarrow> string \<Rightarrow> pydict \<Rightarrow> (pyval \<times> string) option" where
  "parse_value 0 s = None"
| "parse_value (Suc n) s =
     (if s = [] then None
      else if hd s = CHR 0x22 then
        (case parse_string (tl s) of Some (t, r) \<Rightarrow> Some (PStr t, r) | None \<Rightarrow> None)
      else if hd s = CHR ''{'' then
        (let r = skip_ws (tl s)
         in if r \<noteq> [] \<and> hd r = CHR ''}'' then Some (PDict [], tl r)
            else parse_members n r [])
      else if hd s = CHR ''['' then
        (let r = skip_ws (tl s)
         in if r \<noteq> [] \<and> hd r = CHR '']'' then Some (PList [], tl r)
            else parse_items n r [])
      else if starts_with ''null'' s then Some (PNone, drop 4 s)
      else if starts_with ''true'' s then Some (PBool True, drop 4 s)
      else if starts_with ''false'' s then Some (PBool False, drop 5 s)
      else (case parse_number s of
              Some res \<Rightarrow> Some res
            | None \<Rightarrow>
                if starts_with ''NaN'' s then Some (PNaN, drop 3 s)
                else if starts_with ''Infinity'' s then Some (PInf, drop 8 s)
                else if starts_with ''-Infinity'' s then Some (PNegInf, drop 9 s)
                else None))"
| "parse_items 0 s acc = None"
| "parse_items (Suc n) s acc =
     (case parse_value n s of
        None \<Rightarrow> None
      | Some (v, r) \<Rightarrow>
          (let r = skip_ws r
           in if r = [] then None
              else if hd r = CHR '']'' then Some (PList (acc @ [v]), tl r)
              else if hd r = CHR '','' then parse_items n (skip_ws (tl r)) (acc @ [v])
              else None))"
| "parse_members 0 s acc = None"
| "parse_members (Suc n) s acc =
     (if s = [] \<or> hd s \<noteq> CHR 0x22 then None
      else (case parse_string (tl s) of
              None \<Rightarrow> None
            | Some (k, r) \<Rightarrow>
                (let r = skip_ws r
                 in if r = [] \<or> hd r \<noteq> CHR '':'' then None
                    else (case parse_value n (skip_ws (tl r)) of
                            None \<Rightarrow> None
                          | Some (v, r) \<Rightarrow>
                              (let r = skip_ws r
                               in if r = [] then None
                                  else if hd r = CHR ''}'' then Some (PDict (dict_set acc k v), tl r)
                                  else if hd r = CHR '','' then
                                    parse_members n (skip_ws (tl r)) (dict_set acc k v)
                                  else None)))))"

definition json_loads :: "string \<Rightarrow> pyval option" where
  "json_loads s =
     (case parse_value (Suc (length s)) (skip_ws s) of
        None \<Rightarrow> None
      | Some (v, r) \<Rightarrow> if skip_ws r = [] then Some v else None)"



subsection \<open>The two strategies\<close>









section \<open>Yield model\<close>

definition cards_per_1000_words :: "pyfloat \<Rightarrow> rat" where
  "cards_per_1000_words yield_level =
     (let y = clamp01 yield_level;
          min_density = 6;
          max_density = 18
      in fadd min_density (fmul (fsub 1 y) (fsub max_density min_density)))"

definition estimate_total_cards :: "string \<Rightarrow> int \<Rightarrow> pyfloat \<Rightarrow> int" where
  "estimate_total_cards raw_text approx_cards yield_level =
     (let total_words = length (split_ws (clean_text raw_text));
          auto = py_round (fmul (fdiv (float_of_int (int total_words)) 1000)
                            (cards_per_1000_words yield_level))
      in max approx_cards auto)"

section \<open>Fact extraction and card building\<close>

text \<open>\<^verbatim>\<open>re.sub(r"\s*\.\s*$", "", t)\<close>: a final full stop goes, with the whitespace around it.\<close>

definition drop_final_stop :: "string \<Rightarrow> string" where
  "drop_final_stop t =
     (case dropWhile isspace (rev t) of
        [] \<Rightarrow> t
      | c # r \<Rightarrow> if c = CHR ''.'' then rev (dropWhile isspace r) else t)"

definition normalize_fact :: "string \<Rightarrow> string" where
  "normalize_fact f = drop_final_stop (lower (clean_text f))"

text \<open>
  The completion service is outside the program. A run is given the answers of the
  service in the order of the calls: \<open>Content c\<close> when the call delivers the string
  \<open>c\<close> as the content of the first choice, \<open>Raised\<close> when the request, the status
  check or the access to the content raises, or the content is no string (then the
  parsing helper raises). When the answers run out, every further call raises. The
  prompt, which is all that depends on the text and the sizes asked for, is not
  modelled.
\<close>

text \<open>
  The notes of the deck: the model of a note is the cloze model for the mode
  \<^verbatim>\<open>Fill in the Blank\<close> and the basic model otherwise; its fields are front and back.
\<close>

datatype response = Raised | Content string

datatype note_model = BasicModel | ClozeModel

datatype anki_note = Note note_model string string

text \<open>The effects of a run, in order: a call of the service, a note added to the
  deck, a record written by \<open>save_usage\<close>.\<close>

datatype event = Call | AddNote anki_note | Save pydict

text \<open>
  What a run works on: the answers still to come, the effects so far, the usage file.
\<close>

record world =
  script :: "response list"
  trace :: "event list"
  ledger :: usage_file

text \<open>
  What the server reads when it starts and while it runs: the environment of the ledger,
  the credential (stripped; empty when unset), \<^verbatim>\<open>json.loads\<close> (\<open>None\<close> where it
  raises) and the clock \<^verbatim>\<open>int(time.time())\<close>.
\<close>

record config =
  usage_env :: env
  OPENAI_API_KEY :: string
  loads :: "string \<Rightarrow> pyval option"
  unix_time :: int

datatype ai_error = RuntimeError | RequestFailed | DecodeError | TypeError | AttributeError

text \<open>\<^verbatim>\<open>requests.post(...)\<close> up to the content of the answer.\<close>

definition post :: "world \<Rightarrow> response \<times> world" where
  "post w =
     (case script w of
        [] \<Rightarrow> (Raised, w\<lparr>trace := trace w @ [Call]\<rparr>)
      | r # rs \<Rightarrow> (r, w\<lparr>script := rs, trace := trace w @ [Call]\<rparr>))"

text \<open>Truth of a value, as \<^verbatim>\<open>x or ""\<close> tests it.\<close>

fun truthy :: "pyval \<Rightarrow> bool" where
  "truthy PNone = False"
| "truthy (PBool b) = b"
| "truthy (PInt n) = (n \<noteq> 0)"
| "truthy (PFloat q) = (q \<noteq> 0)"
| "truthy (PStr s) = (s \<noteq> [])"
| "truthy (PList xs) = (xs \<noteq> [])"
| "truthy (PDict d) = (d \<noteq> [])"
| "truthy _ = True"

text \<open>\<^verbatim>\<open>(x or "").strip()\<close>: a true value that is no string has no \<^verbatim>\<open>strip\<close>.\<close>

definition or_empty_strip :: "pyval \<Rightarrow> ai_error + string" where
  "or_empty_strip x =
     (if \<not> truthy x then Inr (strip [])
      else case x of PStr s \<Rightarrow> Inr (strip s) | _ \<Rightarrow> Inl AttributeError)"

text \<open>The items that \<^verbatim>\<open>for it in items\<close> visits.\<close>

fun py_iter :: "pyval \<Rightarrow> ai_error + pyval list" where
  "py_iter (PList xs) = Inr xs"
| "py_iter (PDict d) = Inr (map (\<lambda>(k, v). PStr k) d)"
| "py_iter (PStr s) = Inr (map (\<lambda>c. PStr [c]) s)"
| "py_iter _ = Inl TypeError"

fun facts_of_items :: "pyval list \<Rightarrow> string list \<Rightarrow> ai_error + string list" where
  "facts_of_items [] out = Inr out"
| "facts_of_items (it # items) out =
     (case (case it of
              PDict d \<Rightarrow> or_empty_strip (dict_get d ''fact'' PNone)
            | PStr s \<Rightarrow> Inr (strip s)
            | _ \<Rightarrow> Inr []) of
        Inl err \<Rightarrow> Inl err
      | Inr fct \<Rightarrow> facts_of_items items (if fct \<noteq> [] then out @ [fct] else out))"

text \<open>The facts are the values of the key \<^verbatim>\<open>fact\<close> of the dictionaries returned.\<close>

definition ai_extract_facts ::
  "config \<Rightarrow> string \<Rightarrow> int \<Rightarrow> world \<Rightarrow> (ai_error + string list) \<times> world" where
  "ai_extract_facts cfg chunk_text max_facts w =
     (if OPENAI_API_KEY cfg = [] then (Inl RuntimeError, w)
      else case post w of
        (Raised, w') \<Rightarrow> (Inl RequestFailed, w')
      | (Content content, w') \<Rightarrow>
          (case parse_json_array (loads cfg) content of
             Inl err \<Rightarrow> (Inl DecodeError, w')
           | Inr items \<Rightarrow>
               (case py_iter items of
                  Inl err \<Rightarrow> (Inl err, w')
                | Inr its \<Rightarrow> (facts_of_items its [], w'))))"

record card =
  c_front :: string
  c_back :: string
  c_mode :: string

text \<open>The argument of \<open>normalize_modes\<close> for one mode value: \<^verbatim>\<open>m or ""\<close> must be a string.\<close>

definition mode_entry :: "pyval \<Rightarrow> ai_error + string option" where
  "mode_entry x =
     (if \<not> truthy x then Inr None
      else case x of PStr s \<Rightarrow> Inr (Some s) | _ \<Rightarrow> Inl AttributeError)"

fun cards_of_items :: "pyval list \<Rightarrow> card list \<Rightarrow> ai_error + card list" where
  "cards_of_items [] out = Inr out"
| "cards_of_items (it # items) out =
     (case it of
        PDict d \<Rightarrow>
          (case or_empty_strip (dict_get d ''front'' PNone) of
             Inl err \<Rightarrow> Inl err
           | Inr f \<Rightarrow>
               (case or_empty_strip (dict_get d ''back'' PNone) of
                  Inl err \<Rightarrow> Inl err
                | Inr b \<Rightarrow>
                    (case mode_entry (dict_get d ''mode'' (PStr ''Basic Recall (Q/A)'')) of
                       Inl err \<Rightarrow> Inl err
                     | Inr m \<Rightarrow>
                         cards_of_items items
                           (if f \<noteq> [] \<and> b \<noteq> []
                            then out @ [\<lparr>c_front = f, c_back = b, c_mode = hd (normalize_modes [m])\<rparr>]
                            else out))))
      | _ \<Rightarrow> cards_of_items items out)"

definition ai_cards_from_facts ::
  "config \<Rightarrow> string list \<Rightarrow> string list \<Rightarrow> world \<Rightarrow> (ai_error + card list) \<times> world" where
  "ai_cards_from_facts cfg facts modes w =
     (if facts = [] then (Inr [], w)
      else if OPENAI_API_KEY cfg = [] then (Inl RuntimeError, w)
      else case post w of
        (Raised, w') \<Rightarrow> (Inl RequestFailed, w')
      | (Content content, w') \<Rightarrow>
          (case parse_json_array (loads cfg) content of
             Inl err \<Rightarrow> (Inl DecodeError, w')
           | Inr items \<Rightarrow>
               (case py_iter items of
                  Inl err \<Rightarrow> (Inl err, w')
                | Inr its \<Rightarrow> (cards_of_items its [], w'))))"

section \<open>Balanced generator\<close>

fun batch_of_items ::
  "int \<Rightarrow> pyval list \<Rightarrow> (string \<times> string) set \<Rightarrow> card list \<Rightarrow> ai_error + card list" where
  "batch_of_items n_cards [] seen_pairs cleaned = Inr cleaned"
| "batch_of_items n_cards (c # cards) seen_pairs cleaned =
     (case c of
        PDict d \<Rightarrow>
          (case or_empty_strip (dict_get d ''front'' PNone) of
             Inl err \<Rightarrow> Inl err
           | Inr f \<Rightarrow>
               (case or_empty_strip (dict_get d ''back'' PNone) of
                  Inl err \<Rightarrow> Inl err
                | Inr b \<Rightarrow>
                    (case or_empty_strip (dict_get d ''mode'' PNone) of
                       Inl err \<Rightarrow> Inl err
                     | Inr mode_raw \<Rightarrow>
                         if f = [] \<or> b = [] then batch_of_items n_cards cards seen_pairs cleaned
                         else if (f, b) \<in> seen_pairs
                         then batch_of_items n_cards cards seen_pairs cleaned
                         else
                           let cleaned' = cleaned @
                                 [\<lparr>c_front = f, c_back = b,
                                   c_mode = hd (normalize_modes [Some mode_raw])\<rparr>]
                           in if int (length cleaned') \<ge> n_cards then Inr cleaned'
                              else batch_of_items n_cards cards
                                     (insert (f, b) seen_pairs) cleaned')))
      | _ \<Rightarrow> batch_of_items n_cards cards seen_pairs cleaned)"

definition ai_generate_batch ::
  "config \<Rightarrow> string \<Rightarrow> int \<Rightarrow> string list \<Rightarrow> pyfloat \<Rightarrow> world \<Rightarrow> (ai_error + card list) \<times> world" where
  "ai_generate_batch cfg chunk_text n_cards modes yield_level w =
     (if OPENAI_API_KEY cfg = [] then (Inl RuntimeError, w)
      else case post w of
        (Raised, w') \<Rightarrow> (Inl RequestFailed, w')
      | (Content content, w') \<Rightarrow>
          (case parse_json_array (loads cfg) content of
             Inl err \<Rightarrow> (Inl DecodeError, w')
           | Inr cards \<Rightarrow>
               (case py_iter cards of
                  Inl err \<Rightarrow> (Inl err, w')
                | Inr its \<Rightarrow> (batch_of_items n_cards its {} [], w'))))"

section \<open>Subscription gate\<close>

record sub_row =
  status :: "string option"
  current_period_end :: "int option"

definition is_active :: "config \<Rightarrow> sub_row option \<Rightarrow> bool" where
  "is_active cfg sub_row =
     (case sub_row of
        None \<Rightarrow> False
      | Some row \<Rightarrow>
          (let st = lower (case status row of None \<Rightarrow> [] | Some s \<Rightarrow> s);
               cpe = (case current_period_end row of None \<Rightarrow> 0 | Some t \<Rightarrow> t)
           in if st \<noteq> ''active'' \<and> st \<noteq> ''trialing'' then False
              else cpe \<ge> unix_time cfg))"

section \<open>Build of the deck\<close>

text \<open>
  The JSON body of a request after the conversions at the head of \<open>build_apkg\<close>:
  \<^verbatim>\<open>float\<close> of the yield, \<^verbatim>\<open>int\<close> of the two sizes, strings or \<^verbatim>\<open>None\<close> as modes. A body
  on which one of them raises ends in an unhandled exception after the subscription
  gate, before the credential is checked and the usage is loaded. A missing e-mail
  address is the empty string.
\<close>

record request =
  r_email :: string
  r_deck_title :: string
  r_text :: string
  r_yield_level :: pyfloat
  r_modes :: "string option list"
  r_approx_cards :: int
  r_words_per_chunk :: int

text \<open>
  The answer of the endpoint: a rejection with its status and message, or the package of
  the notes added. \<open>Unhandled\<close> is a type error on the usage record in memory, which
  \<open>load_usage\<close> rules out.
\<close>

datatype http = Reject nat string | Package "anki_note list" | Unhandled

definition notes_of :: "event list \<Rightarrow> anki_note list" where
  "notes_of tr = concat (map (\<lambda>ev. case ev of AddNote n \<Rightarrow> [n] | _ \<Rightarrow> []) tr)"

text \<open>
  The loop over the cards of one batch, the same in the three places: it stops at the
  target, skips a card without front or back, and counts the notes it adds in
  \<open>cards_added\<close> and \<open>actually_added\<close>.
\<close>

fun accept_cards :: "int \<Rightarrow> card list \<Rightarrow> int \<times> int \<times> event list \<Rightarrow> int \<times> int \<times> event list" where
  "accept_cards target [] (cards_added, actually_added, tr) = (cards_added, actually_added, tr)"
| "accept_cards target (c # cs) (cards_added, actually_added, tr) =
     (if cards_added \<ge> target then (cards_added, actually_added, tr)
      else if c_front c = [] \<or> c_back c = [] then
        accept_cards target cs (cards_added, actually_added, tr)
      else
        accept_cards target cs
          (cards_added + 1, actually_added + 1,
           tr @ [AddNote (Note (if c_mode c = ''Fill in the Blank'' then ClozeModel else BasicModel)
                            (c_front c) (c_back c))]))"

text \<open>
  \<^verbatim>\<open>usage["cards_used"] += actually_added; save_usage(usage)\<close>. The result is \<open>None\<close>
  when the counter in memory is no integer.
\<close>

definition debit :: "config \<Rightarrow> int \<Rightarrow> pydict \<Rightarrow> world \<Rightarrow> (pydict \<times> world) option" where
  "debit cfg actually_added usage w =
     (case dict_get usage ''cards_used'' PNone of
        PInt n \<Rightarrow>
          (let usage' = dict_set usage ''cards_used'' (PInt (n + actually_added))
           in Some (usage',
                w\<lparr>ledger := save_usage (usage_env cfg) (PDict usage'),
                  trace := trace w @
                    [Save (validate_and_patch_usage (usage_env cfg) (PDict usage'))]\<rparr>))
      | _ \<Rightarrow> None)"

text \<open>What a loop hands on: a failure that ends the run, if any, and the variables.\<close>

type_synonym loop_state = "http option \<times> int \<times> pydict \<times> world"

subsection \<open>Exhaustive pipeline\<close>

fun merge_facts :: "string list \<Rightarrow> string set \<times> string list \<Rightarrow> string set \<times> string list" where
  "merge_facts [] (all_facts_normed, all_facts) = (all_facts_normed, all_facts)"
| "merge_facts (f # facts) (all_facts_normed, all_facts) =
     (let ftxt = strip f
      in if ftxt = [] then merge_facts facts (all_facts_normed, all_facts)
         else let key = normalize_fact ftxt
              in if key \<notin> all_facts_normed
                 then merge_facts facts (insert key all_facts_normed, all_facts @ [ftxt])
                 else merge_facts facts (all_facts_normed, all_facts))"

fun extract_all ::
  "config \<Rightarrow> string list \<Rightarrow> string set \<times> string list \<Rightarrow> world \<Rightarrow>
   (http + string set \<times> string list) \<times> world" where
  "extract_all cfg [] acc w = (Inr acc, w)"
| "extract_all cfg (ch # chunks) acc w =
     (let ch_words = length (split_ws (clean_text ch));
          max_facts = max 40 (py_round (fmul (fdiv (float_of_int (int ch_words)) 1000) 110))
      in case ai_extract_facts cfg ch max_facts w of
           (Inl err, w') \<Rightarrow> (Inl (Reject 500 ''AI extraction error''), w')
         | (Inr facts, w') \<Rightarrow> extract_all cfg chunks (merge_facts facts acc) w')"

function cardize ::
  "config \<Rightarrow> string list \<Rightarrow> string list \<Rightarrow> int \<Rightarrow> nat \<Rightarrow> int \<Rightarrow> pydict \<Rightarrow> world \<Rightarrow> loop_state" where
  "cardize cfg all_facts modes allowed_total i cards_added usage w =
     (if int i < allowed_total then
        (case ai_cards_from_facts cfg (py_slice all_facts (int i) (int i + 50)) modes w of
           (Inl err, w') \<Rightarrow> (Some (Reject 500 ''AI cardization error''), cards_added, usage, w')
         | (Inr new_cards, w') \<Rightarrow>
             (case accept_cards allowed_total new_cards (cards_added, 0, trace w') of
                (cards_added', actually_added, tr) \<Rightarrow>
                  if actually_added > 0 then
                    (case debit cfg actually_added usage (w'\<lparr>trace := tr\<rparr>) of
                       None \<Rightarrow> (Some Unhandled, cards_added', usage, w'\<lparr>trace := tr\<rparr>)
                     | Some (usage', w'') \<Rightarrow>
                         cardize cfg all_facts modes allowed_total (i + 50) cards_added' usage' w'')
                  else cardize cfg all_facts modes allowed_total (i + 50) cards_added' usage
                         (w'\<lparr>trace := tr\<rparr>)))
      else (None, cards_added, usage, w))"
  by pat_completeness auto
termination
  by (relation "measure (\<lambda>(cfg, all_facts, modes, allowed_total, i, rest). nat (allowed_total - int i))")
     auto

declare cardize.simps [simp del]

definition exhaustive_pipeline ::
  "config \<Rightarrow> request \<Rightarrow> string list \<Rightarrow> int \<Rightarrow> int \<Rightarrow> pydict \<Rightarrow> world \<Rightarrow> http \<times> world" where
  "exhaustive_pipeline cfg req modes words_chunk remaining_cap usage w =
     (let chunks = chunk_by_words (r_text req) words_chunk 120
      in case extract_all cfg chunks ({}, []) w of
           (Inl failure, w1) \<Rightarrow> (failure, w1)
         | (Inr (all_facts_normed, all_facts), w1) \<Rightarrow>
             if all_facts = [] then
               (Reject 422 ''No extractable facts found. Try smaller words_per_chunk.'', w1)
             else
               let allowed_total = min (int (length all_facts)) remaining_cap
               in case cardize cfg all_facts modes allowed_total 0 0 usage w1 of
                    (Some failure, cards_added, usage', w2) \<Rightarrow> (failure, w2)
                  | (None, cards_added, usage', w2) \<Rightarrow>
                      if cards_added = 0 then
                        (Reject 422 ''No cards generated from extracted facts.'', w2)
                      else (Package (notes_of (trace w2)), w2))"

subsection \<open>Balanced pipeline\<close>

function chunk_calls ::
  "config \<Rightarrow> string \<Rightarrow> string list \<Rightarrow> pyfloat \<Rightarrow> int \<Rightarrow> int \<Rightarrow> int \<Rightarrow> int \<Rightarrow> pydict \<Rightarrow> world \<Rightarrow>
   loop_state" where
  "chunk_calls cfg chunk modes yield_level target_for_chunk target_cards_total
       produced_for_chunk cards_added usage w =
     (if produced_for_chunk < target_for_chunk \<and> cards_added < target_cards_total then
        (let remaining_overall = target_cards_total - cards_added;
             remaining_for_chunk = target_for_chunk - produced_for_chunk;
             n_this_call = choose_call_size yield_level remaining_overall remaining_for_chunk
         in case ai_generate_batch cfg chunk n_this_call modes yield_level w of
              (Inl err, w') \<Rightarrow> (Some (Reject 500 ''AI generation error''), cards_added, usage, w')
            | (Inr batch_cards, w') \<Rightarrow>
                (case accept_cards target_cards_total batch_cards (cards_added, 0, trace w') of
                   (cards_added', actually_added, tr) \<Rightarrow>
                     if actually_added > 0 then
                       (case debit cfg actually_added usage (w'\<lparr>trace := tr\<rparr>) of
                          None \<Rightarrow> (Some Unhandled, cards_added', usage, w'\<lparr>trace := tr\<rparr>)
                        | Some (usage', w'') \<Rightarrow>
                            chunk_calls cfg chunk modes yield_level target_for_chunk
                              target_cards_total (produced_for_chunk + actually_added)
                              cards_added' usage' w'')
                     else (None, cards_added', usage, w'\<lparr>trace := tr\<rparr>)))
      else (None, cards_added, usage, w))"
  by pat_completeness auto
termination
  by (relation "measure (\<lambda>(cfg, chunk, modes, yield_level, target_for_chunk, target_cards_total,
        produced_for_chunk, rest). nat (target_for_chunk - produced_for_chunk))")
     auto

declare chunk_calls.simps [simp del]

fun per_chunk ::
  "config \<Rightarrow> (string \<times> int) list \<Rightarrow> string list \<Rightarrow> pyfloat \<Rightarrow> int \<Rightarrow> int \<Rightarrow> pydict \<Rightarrow> world \<Rightarrow>
   loop_state" where
  "per_chunk cfg [] modes yield_level target_cards_total cards_added usage w =
     (None, cards_added, usage, w)"
| "per_chunk cfg ((chunk, target_for_chunk) # rest) modes yield_level target_cards_total
       cards_added usage w =
     (case chunk_calls cfg chunk modes yield_level target_for_chunk target_cards_total 0
             cards_added usage w of
        (Some failure, st) \<Rightarrow> (Some failure, st)
      | (None, cards_added', usage', w') \<Rightarrow>
          per_chunk cfg rest modes yield_level target_cards_total cards_added' usage' w')"

text \<open>One pass of the sweep over the chunks, with its flag \<open>made_progress\<close>.\<close>

fun sweep_pass ::
  "config \<Rightarrow> string list \<Rightarrow> string list \<Rightarrow> pyfloat \<Rightarrow> int \<Rightarrow> bool \<Rightarrow> int \<Rightarrow> pydict \<Rightarrow> world \<Rightarrow>
   bool \<times> loop_state" where
  "sweep_pass cfg [] modes yield_level target_cards_total made_progress cards_added usage w =
     (made_progress, None, cards_added, usage, w)"
| "sweep_pass cfg (chunk # chunks) modes yield_level target_cards_total made_progress
       cards_added usage w =
     (if cards_added \<ge> target_cards_total then (made_progress, None, cards_added, usage, w)
      else
        let n_this_call = choose_call_size yield_level (target_cards_total - cards_added)
                            (target_cards_total - cards_added)
        in case ai_generate_batch cfg chunk n_this_call modes yield_level w of
             (Inl err, w') \<Rightarrow>
               (made_progress, Some (Reject 500 ''AI generation error''), cards_added, usage, w')
           | (Inr batch_cards, w') \<Rightarrow>
               (case accept_cards target_cards_total batch_cards (cards_added, 0, trace w') of
                  (cards_added', actually_added, tr) \<Rightarrow>
                    if actually_added > 0 then
                      (case debit cfg actually_added usage (w'\<lparr>trace := tr\<rparr>) of
                         None \<Rightarrow> (made_progress, Some Unhandled, cards_added', usage, w'\<lparr>trace := tr\<rparr>)
                       | Some (usage', w'') \<Rightarrow>
                           sweep_pass cfg chunks modes yield_level target_cards_total True
                             cards_added' usage' w'')
                    else sweep_pass cfg chunks modes yield_level target_cards_total made_progress
                           cards_added' usage (w'\<lparr>trace := tr\<rparr>)))"

lemma accept_cards_counts:
  "accept_cards target cs (ca, aa, tr) = (ca', aa', tr') \<Longrightarrow>
   ca' - ca = aa' - aa \<and> aa \<le> aa' \<and> (ca \<le> target \<longrightarrow> ca' \<le> target) \<and>
   (\<exists>added. tr' = tr @ map AddNote added \<and> int (length added) = aa' - aa)"
proof (induction cs arbitrary: ca aa tr)
  case Nil
  then show ?case by simp
next
  case (Cons c cs)
  show ?case
  proof (cases "ca \<ge> target")
    case True
    with Cons.prems show ?thesis by simp
  next
    case False
    note below = this
    show ?thesis
    proof (cases "c_front c = [] \<or> c_back c = []")
      case True
      with below Cons.prems have "accept_cards target cs (ca, aa, tr) = (ca', aa', tr')" by simp
      then show ?thesis by (rule Cons.IH)
    next
      case False
      let ?n = "Note (if c_mode c = ''Fill in the Blank'' then ClozeModel else BasicModel)
                  (c_front c) (c_back c)"
      from False below Cons.prems
      have "accept_cards target cs (ca + 1, aa + 1, tr @ [AddNote ?n]) = (ca', aa', tr')"
        by simp
      then have ih: "ca' - (ca + 1) = aa' - (aa + 1) \<and> aa + 1 \<le> aa' \<and>
          (ca + 1 \<le> target \<longrightarrow> ca' \<le> target) \<and>
          (\<exists>added. tr' = (tr @ [AddNote ?n]) @ map AddNote added \<and>
             int (length added) = aa' - (aa + 1))"
        by (rule Cons.IH)
      then obtain added where a: "tr' = (tr @ [AddNote ?n]) @ map AddNote added"
        and l: "int (length added) = aa' - (aa + 1)" by blast
      have "tr' = tr @ map AddNote (?n # added) \<and> int (length (?n # added)) = aa' - aa"
        using a l by simp
      then have "\<exists>added. tr' = tr @ map AddNote added \<and> int (length added) = aa' - aa"
        by blast
      with ih below show ?thesis by auto
    qed
  qed
qed

lemma sweep_pass_progress:
  "sweep_pass cfg chunks modes y target mp ca usage w = (mp', fail, ca', usage', w') \<Longrightarrow>
   ca \<le> ca' \<and> (mp' \<and> \<not> mp \<longrightarrow> ca < ca')"
proof (induction chunks arbitrary: mp ca usage w)
  case Nil
  then show ?case by simp
next
  case (Cons chunk chunks)
  show ?case
  proof (cases "ca \<ge> target")
    case True
    with Cons.prems show ?thesis by simp
  next
    case False
    let ?n = "choose_call_size y (target - ca) (target - ca)"
    obtain res w1 where g: "ai_generate_batch cfg chunk ?n modes y w = (res, w1)"
      by (cases "ai_generate_batch cfg chunk ?n modes y w")
    show ?thesis
    proof (cases res)
      case (Inl err)
      with False g Cons.prems show ?thesis by (simp add: Let_def)
    next
      case (Inr batch)
      obtain ca1 aa tr where acc: "accept_cards target batch (ca, 0, trace w1) = (ca1, aa, tr)"
        by (cases "accept_cards target batch (ca, 0, trace w1)")
      from accept_cards_counts[OF acc] have c: "ca1 - ca = aa" "0 \<le> aa" by simp_all
      show ?thesis
      proof (cases "aa > 0")
        case True
        show ?thesis
        proof (cases "debit cfg aa usage (w1\<lparr>trace := tr\<rparr>)")
          case None
          with True False g Inr acc Cons.prems c show ?thesis by (simp add: Let_def)
        next
          case (Some p)
          obtain usage2 w2 where p: "p = (usage2, w2)" by (cases p)
          from True False g Inr acc Cons.prems Some p
          have "sweep_pass cfg chunks modes y target True ca1 usage2 w2 = (mp', fail, ca', usage', w')"
            by (simp add: Let_def)
          then have "ca1 \<le> ca'" using Cons.IH by blast
          with c True show ?thesis by simp
        qed
      next
        case F: False
        with False g Inr acc Cons.prems
        have "sweep_pass cfg chunks modes y target mp ca1 usage (w1\<lparr>trace := tr\<rparr>) =
            (mp', fail, ca', usage', w')"
          by (simp add: Let_def)
        then have "ca1 \<le> ca' \<and> (mp' \<and> \<not> mp \<longrightarrow> ca1 < ca')" by (rule Cons.IH)
        with c F show ?thesis by simp
      qed
    qed
  qed
qed

function sweep ::
  "config \<Rightarrow> string list \<Rightarrow> string list \<Rightarrow> pyfloat \<Rightarrow> int \<Rightarrow> int \<Rightarrow> pydict \<Rightarrow> world \<Rightarrow> loop_state" where
  "sweep cfg chunks modes yield_level target_cards_total cards_added usage w =
     (if cards_added < target_cards_total then
        (case sweep_pass cfg chunks modes yield_level target_cards_total False cards_added usage w of
           (made_progress, Some failure, st) \<Rightarrow> (Some failure, st)
         | (made_progress, None, cards_added', usage', w') \<Rightarrow>
             if \<not> made_progress then (None, cards_added', usage', w')
             else sweep cfg chunks modes yield_level target_cards_total cards_added' usage' w')
      else (None, cards_added, usage, w))"
  by pat_completeness auto
termination
  apply (relation "measure (\<lambda>(cfg, chunks, modes, yield_level, target_cards_total, cards_added, rest).
    nat (target_cards_total - cards_added))")
   apply simp
  apply (auto dest!: sweep_pass_progress [OF sym])
  done

declare sweep.simps [simp del]

definition balanced_pipeline ::
  "config \<Rightarrow> request \<Rightarrow> string list \<Rightarrow> int \<Rightarrow> int \<Rightarrow> pydict \<Rightarrow> world \<Rightarrow> http \<times> world" where
  "balanced_pipeline cfg req modes words_chunk remaining_cap usage w =
     (let dynamic_total = estimate_total_cards (r_text req) (r_approx_cards req) (r_yield_level req);
          target_cards_total = min dynamic_total remaining_cap
      in if target_cards_total \<le> 0 then (Reject 402 ''No remaining card quota.'', w)
         else
           let chunks = chunk_by_words (r_text req) words_chunk 120;
               chunk_words = map (\<lambda>c. length (split_ws (clean_text c))) chunks;
               density = cards_per_1000_words (r_yield_level req);
               chunk_targets = map (\<lambda>w. max 1 (py_round (fmul (fdiv (float_of_int (int w)) 1000) density)))
                                 chunk_words
           in case per_chunk cfg (zip chunks chunk_targets) modes (r_yield_level req)
                     target_cards_total 0 usage w of
                (Some failure, cards_added, usage1, w1) \<Rightarrow> (failure, w1)
              | (None, cards_added, usage1, w1) \<Rightarrow>
                  (case sweep cfg chunks modes (r_yield_level req) target_cards_total
                          cards_added usage1 w1 of
                     (Some failure, cards_added', usage2, w2) \<Rightarrow> (failure, w2)
                   | (None, cards_added', usage2, w2) \<Rightarrow>
                       if cards_added' = 0 then
                         (Reject 422
                            ''No cards generated. Try lowering yield or providing more text.'', w2)
                       else (Package (notes_of (trace w2)), w2)))"

text \<open>
  \<open>build_apkg\<close> with the subscription table \<open>subs\<close>. The identifiers of the deck and of
  its two note models, hashes of the title, are not modelled: a package is the list of
  its notes.
\<close>

definition build_apkg ::
  "config \<Rightarrow> (string \<Rightarrow> sub_row option) \<Rightarrow> request \<Rightarrow> world \<Rightarrow> http \<times> world" where
  "build_apkg cfg subs req w =
     (let email = lower (strip (r_email req))
      in if email = [] then (Reject 400 ''Email is required'', w)
         else if \<not> is_active cfg (subs email) then
           (Reject 402 ''Subscription inactive. Please subscribe to continue.'', w)
         else
           let modes = normalize_modes
                 (if r_modes req = [] then [Some ''Basic Recall (Q/A)''] else r_modes req);
               words_chunk = max 300 (r_words_per_chunk req)
           in if OPENAI_API_KEY cfg = [] then
                (Reject 500 ''Server missing OPENAI_API_KEY environment variable.'', w)
              else
                case load_usage (usage_env cfg) (ledger w) of
                  (usage, file) \<Rightarrow>
                    (let w0 = w\<lparr>ledger := file\<rparr>
                     in case (dict_get usage ''cap'' PNone, dict_get usage ''cards_used'' PNone) of
                          (PInt cap, PInt used) \<Rightarrow>
                            (let remaining_cap = max 0 (cap - used)
                             in if remaining_cap \<le> 0 then
                                  (Reject 402
                                     ''Monthly card limit reached. Try again next month or increase your cap.'',
                                   w0)
                                else if float_le (r_yield_level req) (fadd 0 (fl (1 / 10 ^ 9))) then
                                  exhaustive_pipeline cfg req modes words_chunk remaining_cap usage w0
                                else
                                  balanced_pipeline cfg req modes words_chunk remaining_cap usage w0)
                        | _ \<Rightarrow> (Unhandled, w0)))"

subsection \<open>Gating\<close>

text \<open>
  C7. For a request with an e-mail address, an active subscription and a configured
  credential: if the record that \<open>load_usage\<close> returns has \<open>cap - cards_used \<le> 0\<close>, the
  answer is the rejection 402 for the monthly limit; the run calls the service not
  once, adds no note and writes no debit: the answers still to come and the trace are
  untouched, and the ledger is the file as \<open>load_usage\<close> left it.
\<close>

theorem quota_exhausted_no_calls:
  assumes "lower (strip (r_email req)) \<noteq> []"
    and "is_active cfg (subs (lower (strip (r_email req))))"
    and "OPENAI_API_KEY cfg \<noteq> []"
    and "load_usage (usage_env cfg) (ledger w) = (usage, file)"
    and "dict_get usage ''cap'' PNone = PInt cap"
    and "dict_get usage ''cards_used'' PNone = PInt used"
    and "cap - used \<le> 0"
  shows "build_apkg cfg subs req w =
           (Reject 402 ''Monthly card limit reached. Try again next month or increase your cap.'',
            w\<lparr>ledger := file\<rparr>) \<and>
         script (snd (build_apkg cfg subs req w)) = script w \<and>
         trace (snd (build_apkg cfg subs req w)) = trace w \<and>
         ledger (snd (build_apkg cfg subs req w)) = snd (load_usage (usage_env cfg) (ledger w))"
proof -
  have "build_apkg cfg subs req w =
           (Reject 402 ''Monthly card limit reached. Try again next month or increase your cap.'',
            w\<lparr>ledger := file\<rparr>)"
    using assms by (simp add: build_apkg_def Let_def)
  then show ?thesis using assms(4) by simp
qed

subsection \<open>Fact deduplication\<close>












subsection \<open>A concrete deployment\<close>

text \<open>
  A server in November 2026 with the built-in default cap, a credential, the JSON
  grammar above, and one subscriber whose period has not ended.
\<close>

definition example_config :: config where
  "example_config =
     \<lparr>usage_env = env_with_cap 50000, OPENAI_API_KEY = ''sk-test'',
      loads = json_loads, unix_time = 1000\<rparr>"

definition example_subs :: "string \<Rightarrow> sub_row option" where
  "example_subs e =
     (if e = ''a@b.c'' then Some \<lparr>status = Some ''Active'', current_period_end = Some 2000\<rparr>
      else None)"

definition example_request :: "pyfloat \<Rightarrow> request" where
  "example_request y =
     \<lparr>r_email = '' A@b.c'', r_deck_title = ''Deck'', r_text = ''alpha beta gamma'',
      r_yield_level = y, r_modes = [], r_approx_cards = 3, r_words_per_chunk = 700\<rparr>"

text \<open>Witness for C7: the ledger holds 100 used cards under a cap of 100.\<close>

theorem quota_exhausted_no_calls_witness:
  \<open>lower (strip (r_email (example_request (Finite (1 / 2))))) \<noteq> [] \<and>
   is_active example_config (example_subs (lower (strip (r_email (example_request (Finite (1 / 2))))))) \<and>
   OPENAI_API_KEY example_config \<noteq> [] \<and>
   (100::int) - 100 \<le> 0 \<and>
   build_apkg example_config example_subs (example_request (Finite (1 / 2)))
     \<lparr>script = [Content ''[{"front": "Q", "back": "A"}]''], trace = [],
      ledger = Stored (PDict [(''version'', PInt 1), (''month'', PStr ''2026-11''),
                              (''cards_used'', PInt 100), (''cap'', PInt 100)])\<rparr> =
     (Reject 402 ''Monthly card limit reached. Try again next month or increase your cap.'',
      \<lparr>script = [Content ''[{"front": "Q", "back": "A"}]''], trace = [],
       ledger = Stored (PDict [(''version'', PInt 1), (''month'', PStr ''2026-11''),
                               (''cards_used'', PInt 100), (''cap'', PInt 100)])\<rparr>)\<close>
proof -
  let ?d = "[(''version'', PInt 1), (''month'', PStr ''2026-11''),
             (''cards_used'', PInt 100), (''cap'', PInt 100)]"
  let ?w = \<open>\<lparr>script = [Content ''[{"front": "Q", "back": "A"}]''], trace = [],
             ledger = Stored (PDict ?d)\<rparr>\<close>
  have a: "lower (strip (r_email (example_request (Finite (1 / 2))))) \<noteq> []" by code_simp
  have b: "is_active example_config (example_subs (lower (strip (r_email (example_request (Finite (1 / 2)))))))"
    by code_simp
  have c: "OPENAI_API_KEY example_config \<noteq> []" by code_simp
  have d: "load_usage (usage_env example_config) (ledger ?w) = (?d, Stored (PDict ?d))"
    by code_simp
  have e: "dict_get ?d ''cap'' PNone = PInt 100" "dict_get ?d ''cards_used'' PNone = PInt 100"
    by (simp_all add: dict_get_def)
  have f: "(100::int) - 100 \<le> 0" by simp
  from quota_exhausted_no_calls
    [where cfg = example_config and subs = example_subs and req = "example_request (Finite (1 / 2))",
     OF a b c d e f]
  have "build_apkg example_config example_subs (example_request (Finite (1 / 2))) ?w =
     (Reject 402 ''Monthly card limit reached. Try again next month or increase your cap.'',
      ?w\<lparr>ledger := Stored (PDict ?d)\<rparr>)" by (rule conjunct1)
  with a b c f show ?thesis by simp
qed


section \<open>The cap and the ledger during a run\<close>

text \<open>
  An audit of the effects of a run against the count \<open>u\<close> that the ledger held last (at
  first the count loaded) and the number \<open>k\<close> of notes added since: a call of the
  service needs \<open>k = 0\<close>, so the notes of a batch are written before the next call; a
  write needs \<open>k > 0\<close> and writes exactly \<open>u + k\<close>.
\<close>

fun audit_step :: "int \<times> int \<times> bool \<Rightarrow> event \<Rightarrow> int \<times> int \<times> bool" where
  "audit_step (u, k, ok) Call = (u, k, ok \<and> k = 0)"
| "audit_step (u, k, ok) (AddNote n) = (u, k + 1, ok)"
| "audit_step (u, k, ok) (Save d) =
     (u + k, 0, ok \<and> 0 < k \<and> dict_get d ''cards_used'' PNone = PInt (u + k))"

definition ledger_audit :: "int \<Rightarrow> event list \<Rightarrow> bool" where
  "ledger_audit u0 tr = (case foldl audit_step (u0, 0, True) tr of (u, k, ok) \<Rightarrow> ok \<and> k = 0)"

text \<open>
  What holds between two batches of a run that loaded the count \<open>u0\<close> and the cap \<open>c\<close>
  and found the file \<open>f0\<close>: the record in memory, the audit, the deck and the file all
  agree with \<open>cards_added\<close>.
\<close>

definition run_inv :: "env \<Rightarrow> int \<Rightarrow> int \<Rightarrow> usage_file \<Rightarrow> int \<Rightarrow> pydict \<Rightarrow> world \<Rightarrow> bool" where
  "run_inv e u0 c f0 cards_added usage w =
     (0 \<le> u0 \<and> 0 \<le> c \<and> 0 \<le> cards_added \<and>
      usage = usage_dict (PInt USAGE_SCHEMA_VERSION) (PStr (utc_month e))
                (PInt (u0 + cards_added)) (PInt c) \<and>
      foldl audit_step (u0, 0, True) (trace w) = (u0 + cards_added, 0, True) \<and>
      int (length (notes_of (trace w))) = cards_added \<and>
      ledger w = (if cards_added = 0 then f0 else Stored (PDict usage)))"

lemma notes_of_append: "notes_of (a @ b) = notes_of a @ notes_of b"
  by (simp add: notes_of_def)

lemma notes_of_AddNotes: "notes_of (map AddNote added) = added"
  by (induction added) (simp_all add: notes_of_def)

lemma audit_AddNotes:
  "foldl audit_step (u, k, ok) (map AddNote added) = (u, k + int (length added), ok)"
  by (induction added arbitrary: k) simp_all

lemma post_effect: "post w = (r, w') \<Longrightarrow> trace w' = trace w @ [Call] \<and> ledger w' = ledger w"
  by (auto simp: post_def split: list.splits)

definition called :: "world \<Rightarrow> world \<Rightarrow> bool" where
  "called w w' = (w' = w \<or> (trace w' = trace w @ [Call] \<and> ledger w' = ledger w))"

lemma ai_extract_facts_called: "ai_extract_facts cfg ch n w = (res, w') \<Longrightarrow> called w w'"
  by (auto simp: ai_extract_facts_def called_def dest!: post_effect
      split: if_splits prod.splits response.splits sum.splits)

lemma ai_cards_from_facts_called: "ai_cards_from_facts cfg facts modes w = (res, w') \<Longrightarrow> called w w'"
  by (auto simp: ai_cards_from_facts_def called_def dest!: post_effect
      split: if_splits prod.splits response.splits sum.splits)

lemma ai_generate_batch_called: "ai_generate_batch cfg ch n modes y w = (res, w') \<Longrightarrow> called w w'"
  by (auto simp: ai_generate_batch_def called_def dest!: post_effect
      split: if_splits prod.splits response.splits sum.splits)

lemma run_inv_called: "run_inv e u0 c f0 ca usage w \<Longrightarrow> called w w' \<Longrightarrow> run_inv e u0 c f0 ca usage w'"
  by (auto simp: run_inv_def called_def notes_of_append notes_of_def)

lemma validate_usage_dict:
  assumes "0 \<le> u" and "0 \<le> c"
  shows "validate_and_patch_usage e
           (PDict (usage_dict (PInt USAGE_SCHEMA_VERSION) (PStr (utc_month e)) (PInt u) (PInt c))) =
         usage_dict (PInt USAGE_SCHEMA_VERSION) (PStr (utc_month e)) (PInt u) (PInt c)"
  using assms by (simp add: validate_dict healed_used_def healed_cap_def usage_dict_get)

text \<open>The end of a batch: the notes accepted are written at once, or nothing changes.\<close>

lemma batch_commit:
  assumes inv: "run_inv (usage_env cfg) u0 c f0 ca usage w1" and le: "ca \<le> target"
    and acc: "accept_cards target batch (ca, 0, trace w1) = (ca', aa, tr)"
  shows "ca' \<le> target \<and> ca' = ca + aa \<and> 0 \<le> aa \<and>
         (if aa > 0
          then \<exists>usage' w''. debit cfg aa usage (w1\<lparr>trace := tr\<rparr>) = Some (usage', w'') \<and>
                 run_inv (usage_env cfg) u0 c f0 ca' usage' w''
          else run_inv (usage_env cfg) u0 c f0 ca' usage (w1\<lparr>trace := tr\<rparr>))"
proof -
  let ?e = "usage_env cfg"
  from accept_cards_counts[OF acc] le obtain added where
    c1: "ca' = ca + aa" and c2: "0 \<le> aa" and c3: "ca' \<le> target"
    and tr: "tr = trace w1 @ map AddNote added" and len: "int (length added) = aa"
    by auto
  from inv have u0: "0 \<le> u0" and c: "0 \<le> c" and ca: "0 \<le> ca"
    and us: "usage = usage_dict (PInt USAGE_SCHEMA_VERSION) (PStr (utc_month ?e)) (PInt (u0 + ca)) (PInt c)"
    and au: "foldl audit_step (u0, 0, True) (trace w1) = (u0 + ca, 0, True)"
    and no: "int (length (notes_of (trace w1))) = ca"
    and le0: "ledger w1 = (if ca = 0 then f0 else Stored (PDict usage))"
    by (simp_all add: run_inv_def)
  have au': "foldl audit_step (u0, 0, True) tr = (u0 + ca, aa, True)"
    unfolding tr by (simp add: au audit_AddNotes len)
  have no': "int (length (notes_of tr)) = ca + aa"
    unfolding tr by (simp add: notes_of_append notes_of_AddNotes no len)
  show ?thesis
  proof (cases "aa > 0")
    case True
    let ?usage' = "usage_dict (PInt USAGE_SCHEMA_VERSION) (PStr (utc_month ?e))
        (PInt (u0 + ca + aa)) (PInt c)"
    let ?w'' = "w1\<lparr>trace := tr @ [Save ?usage'], ledger := Stored (PDict ?usage')\<rparr>"
    have v: "validate_and_patch_usage ?e (PDict ?usage') = ?usage'"
      using u0 c ca c2 by (intro validate_usage_dict) simp_all
    have d: "debit cfg aa usage (w1\<lparr>trace := tr\<rparr>) = Some (?usage', ?w'')"
      unfolding debit_def us by (simp add: usage_dict_get usage_dict_set Let_def save_usage_def v)
    have "run_inv ?e u0 c f0 ca' ?usage' ?w''"
      using u0 c ca c2 True c1 au' no'
      by (simp add: run_inv_def notes_of_append notes_of_def usage_dict_get add.assoc)
    with d c1 c2 c3 True show ?thesis by auto
  next
    case False
    with c2 have z: "aa = 0" by simp
    then have "added = []" using len by simp
    then have "tr = trace w1" using tr by simp
    then have "w1\<lparr>trace := tr\<rparr> = w1" by simp
    with inv z c1 c3 show ?thesis by simp
  qed
qed

text \<open>A loop ends well: the invariant holds, the target is kept, no type error arose.\<close>

definition run_ok :: "env \<Rightarrow> int \<Rightarrow> int \<Rightarrow> usage_file \<Rightarrow> int \<Rightarrow> loop_state \<Rightarrow> bool" where
  "run_ok e u0 c f0 target st =
     (case st of (fail, ca, usage, w) \<Rightarrow>
        run_inv e u0 c f0 ca usage w \<and> ca \<le> target \<and> fail \<noteq> Some Unhandled)"

lemma run_okI:
  "run_inv e u0 c f0 ca usage w \<Longrightarrow> ca \<le> target \<Longrightarrow> fail \<noteq> Some Unhandled \<Longrightarrow>
   run_ok e u0 c f0 target (fail, ca, usage, w)"
  by (simp add: run_ok_def)

lemma cardize_ok:
  "run_inv (usage_env cfg) u0 c f0 ca usage w \<Longrightarrow> ca \<le> allowed \<Longrightarrow>
   run_ok (usage_env cfg) u0 c f0 allowed (cardize cfg all_facts modes allowed i ca usage w)"
proof (induction "nat (allowed - int i)" arbitrary: i ca usage w rule: less_induct)
  case less
  let ?e = "usage_env cfg"
  show ?case
  proof (cases "int i < allowed")
    case False
    then have "cardize cfg all_facts modes allowed i ca usage w = (None, ca, usage, w)"
      by (subst cardize.simps) simp
    with less.prems show ?thesis by (simp add: run_ok_def)
  next
    case True
    then have m: "nat (allowed - int (i + 50)) < nat (allowed - int i)" by simp
    obtain res w1 where a:
      "ai_cards_from_facts cfg (py_slice all_facts (int i) (int i + 50)) modes w = (res, w1)"
      by (cases "ai_cards_from_facts cfg (py_slice all_facts (int i) (int i + 50)) modes w")
    have inv1: "run_inv ?e u0 c f0 ca usage w1"
      using less.prems(1) ai_cards_from_facts_called[OF a] by (rule run_inv_called)
    show ?thesis
    proof (cases res)
      case (Inl err)
      have "cardize cfg all_facts modes allowed i ca usage w =
          (Some (Reject 500 ''AI cardization error''), ca, usage, w1)"
        by (subst cardize.simps) (simp add: True a Inl)
      with inv1 less.prems(2) show ?thesis by (simp add: run_ok_def)
    next
      case (Inr new_cards)
      obtain ca' aa tr where acc: "accept_cards allowed new_cards (ca, 0, trace w1) = (ca', aa, tr)"
        by (cases "accept_cards allowed new_cards (ca, 0, trace w1)")
      note bc = batch_commit[OF inv1 less.prems(2) acc]
      show ?thesis
      proof (cases "aa > 0")
        case T: True
        with bc obtain usage' w'' where d: "debit cfg aa usage (w1\<lparr>trace := tr\<rparr>) = Some (usage', w'')"
          and inv2: "run_inv ?e u0 c f0 ca' usage' w''" by auto
        have "cardize cfg all_facts modes allowed i ca usage w =
            cardize cfg all_facts modes allowed (i + 50) ca' usage' w''"
          by (subst cardize.simps) (simp add: True a Inr acc T d)
        moreover have "run_ok ?e u0 c f0 allowed
            (cardize cfg all_facts modes allowed (i + 50) ca' usage' w'')"
          using m inv2 bc by (intro less.hyps) simp_all
        ultimately show ?thesis by simp
      next
        case F: False
        with bc have inv2: "run_inv ?e u0 c f0 ca' usage (w1\<lparr>trace := tr\<rparr>)" by auto
        have "cardize cfg all_facts modes allowed i ca usage w =
            cardize cfg all_facts modes allowed (i + 50) ca' usage (w1\<lparr>trace := tr\<rparr>)"
          by (subst cardize.simps) (simp add: True a Inr acc F)
        moreover have "run_ok ?e u0 c f0 allowed
            (cardize cfg all_facts modes allowed (i + 50) ca' usage (w1\<lparr>trace := tr\<rparr>))"
          using m inv2 bc by (intro less.hyps) simp_all
        ultimately show ?thesis by simp
      qed
    qed
  qed
qed

lemma chunk_calls_ok:
  "run_inv (usage_env cfg) u0 c f0 ca usage w \<Longrightarrow> ca \<le> target \<Longrightarrow>
   run_ok (usage_env cfg) u0 c f0 target
     (chunk_calls cfg chunk modes y tfc target produced ca usage w)"
proof (induction "nat (tfc - produced)" arbitrary: produced ca usage w rule: less_induct)
  case less
  let ?e = "usage_env cfg"
  show ?case
  proof (cases "produced < tfc \<and> ca < target")
    case False
    then have "chunk_calls cfg chunk modes y tfc target produced ca usage w = (None, ca, usage, w)"
      by (subst chunk_calls.simps) auto
    with less.prems show ?thesis by (simp add: run_ok_def)
  next
    case True
    let ?n = "choose_call_size y (target - ca) (tfc - produced)"
    obtain res w1 where a: "ai_generate_batch cfg chunk ?n modes y w = (res, w1)"
      by (cases "ai_generate_batch cfg chunk ?n modes y w")
    have inv1: "run_inv ?e u0 c f0 ca usage w1"
      using less.prems(1) ai_generate_batch_called[OF a] by (rule run_inv_called)
    show ?thesis
    proof (cases res)
      case (Inl err)
      have "chunk_calls cfg chunk modes y tfc target produced ca usage w =
          (Some (Reject 500 ''AI generation error''), ca, usage, w1)"
        by (subst chunk_calls.simps) (simp add: True a Inl Let_def)
      with inv1 less.prems(2) show ?thesis by (simp add: run_ok_def)
    next
      case (Inr batch)
      obtain ca' aa tr where acc: "accept_cards target batch (ca, 0, trace w1) = (ca', aa, tr)"
        by (cases "accept_cards target batch (ca, 0, trace w1)")
      note bc = batch_commit[OF inv1 less.prems(2) acc]
      show ?thesis
      proof (cases "aa > 0")
        case T: True
        with bc obtain usage' w'' where d: "debit cfg aa usage (w1\<lparr>trace := tr\<rparr>) = Some (usage', w'')"
          and inv2: "run_inv ?e u0 c f0 ca' usage' w''" by auto
        have m: "nat (tfc - (produced + aa)) < nat (tfc - produced)" using T True by simp
        have "chunk_calls cfg chunk modes y tfc target produced ca usage w =
            chunk_calls cfg chunk modes y tfc target (produced + aa) ca' usage' w''"
          by (subst chunk_calls.simps) (simp add: True a Inr acc T d Let_def)
        moreover have "run_ok ?e u0 c f0 target
            (chunk_calls cfg chunk modes y tfc target (produced + aa) ca' usage' w'')"
          using m inv2 bc by (intro less.hyps) simp_all
        ultimately show ?thesis by simp
      next
        case F: False
        with bc have inv2: "run_inv ?e u0 c f0 ca' usage (w1\<lparr>trace := tr\<rparr>)" by auto
        have "chunk_calls cfg chunk modes y tfc target produced ca usage w =
            (None, ca', usage, w1\<lparr>trace := tr\<rparr>)"
          by (subst chunk_calls.simps) (simp add: True a Inr acc F Let_def)
        with inv2 bc show ?thesis by (simp add: run_ok_def)
      qed
    qed
  qed
qed

lemma per_chunk_ok:
  "run_inv (usage_env cfg) u0 c f0 ca usage w \<Longrightarrow> ca \<le> target \<Longrightarrow>
   run_ok (usage_env cfg) u0 c f0 target (per_chunk cfg cts modes y target ca usage w)"
proof (induction cts arbitrary: ca usage w)
  case Nil
  then show ?case by (simp add: run_ok_def)
next
  case (Cons ct cts)
  obtain chunk tfc where ct: "ct = (chunk, tfc)" by (cases ct)
  obtain fail ca1 usage1 w1 where r:
    "chunk_calls cfg chunk modes y tfc target 0 ca usage w = (fail, ca1, usage1, w1)"
    by (cases "chunk_calls cfg chunk modes y tfc target 0 ca usage w") auto
  have ok: "run_ok (usage_env cfg) u0 c f0 target (fail, ca1, usage1, w1)"
    using chunk_calls_ok[OF Cons.prems, of chunk modes y tfc 0] unfolding r .
  show ?case
  proof (cases fail)
    case None
    then have "per_chunk cfg (ct # cts) modes y target ca usage w =
        per_chunk cfg cts modes y target ca1 usage1 w1"
      by (simp add: ct r)
    moreover have "run_ok (usage_env cfg) u0 c f0 target
        (per_chunk cfg cts modes y target ca1 usage1 w1)"
      using ok by (intro Cons.IH) (simp_all add: run_ok_def)
    ultimately show ?thesis by simp
  next
    case (Some failure)
    then have "per_chunk cfg (ct # cts) modes y target ca usage w = (Some failure, ca1, usage1, w1)"
      by (simp add: ct r)
    with ok Some show ?thesis by simp
  qed
qed

lemma sweep_pass_ok:
  "run_inv (usage_env cfg) u0 c f0 ca usage w \<Longrightarrow> ca \<le> target \<Longrightarrow>
   run_ok (usage_env cfg) u0 c f0 target
     (snd (sweep_pass cfg chunks modes y target mp ca usage w))"
proof (induction chunks arbitrary: mp ca usage w)
  case Nil
  then show ?case by (simp add: run_ok_def)
next
  case (Cons chunk chunks)
  let ?e = "usage_env cfg"
  show ?case
  proof (cases "ca \<ge> target")
    case True
    with Cons.prems show ?thesis by (simp add: run_ok_def)
  next
    case False
    let ?n = "choose_call_size y (target - ca) (target - ca)"
    obtain res w1 where a: "ai_generate_batch cfg chunk ?n modes y w = (res, w1)"
      by (cases "ai_generate_batch cfg chunk ?n modes y w")
    have inv1: "run_inv ?e u0 c f0 ca usage w1"
      using Cons.prems(1) ai_generate_batch_called[OF a] by (rule run_inv_called)
    show ?thesis
    proof (cases res)
      case (Inl err)
      with False a inv1 Cons.prems(2) show ?thesis by (simp add: Let_def run_ok_def)
    next
      case (Inr batch)
      obtain ca' aa tr where acc: "accept_cards target batch (ca, 0, trace w1) = (ca', aa, tr)"
        by (cases "accept_cards target batch (ca, 0, trace w1)")
      note bc = batch_commit[OF inv1 Cons.prems(2) acc]
      show ?thesis
      proof (cases "aa > 0")
        case T: True
        with bc obtain usage' w'' where d: "debit cfg aa usage (w1\<lparr>trace := tr\<rparr>) = Some (usage', w'')"
          and inv2: "run_inv ?e u0 c f0 ca' usage' w''" by auto
        have "sweep_pass cfg (chunk # chunks) modes y target mp ca usage w =
            sweep_pass cfg chunks modes y target True ca' usage' w''"
          using False a Inr acc T d by (simp add: Let_def)
        moreover have "run_ok ?e u0 c f0 target
            (snd (sweep_pass cfg chunks modes y target True ca' usage' w''))"
          using inv2 bc by (intro Cons.IH) simp_all
        ultimately show ?thesis by simp
      next
        case F: False
        with bc have inv2: "run_inv ?e u0 c f0 ca' usage (w1\<lparr>trace := tr\<rparr>)" by auto
        have "sweep_pass cfg (chunk # chunks) modes y target mp ca usage w =
            sweep_pass cfg chunks modes y target mp ca' usage (w1\<lparr>trace := tr\<rparr>)"
          using False a Inr acc F by (simp add: Let_def)
        moreover have "run_ok ?e u0 c f0 target
            (snd (sweep_pass cfg chunks modes y target mp ca' usage (w1\<lparr>trace := tr\<rparr>)))"
          using inv2 bc by (intro Cons.IH) simp_all
        ultimately show ?thesis by simp
      qed
    qed
  qed
qed

lemma sweep_ok:
  "run_inv (usage_env cfg) u0 c f0 ca usage w \<Longrightarrow> ca \<le> target \<Longrightarrow>
   run_ok (usage_env cfg) u0 c f0 target (sweep cfg chunks modes y target ca usage w)"
proof (induction "nat (target - ca)" arbitrary: ca usage w rule: less_induct)
  case less
  let ?e = "usage_env cfg"
  show ?case
  proof (cases "ca < target")
    case False
    then have "sweep cfg chunks modes y target ca usage w = (None, ca, usage, w)"
      by (subst sweep.simps) simp
    with less.prems show ?thesis by (simp add: run_ok_def)
  next
    case True
    obtain mp fail ca1 usage1 w1 where r:
      "sweep_pass cfg chunks modes y target False ca usage w = (mp, fail, ca1, usage1, w1)"
      by (cases "sweep_pass cfg chunks modes y target False ca usage w") auto
    have ok: "run_ok ?e u0 c f0 target (fail, ca1, usage1, w1)"
      using sweep_pass_ok[OF less.prems, of chunks modes y False] unfolding r by simp
    show ?thesis
    proof (cases fail)
      case (Some failure)
      have "sweep cfg chunks modes y target ca usage w = (Some failure, ca1, usage1, w1)"
        by (subst sweep.simps) (simp add: True r Some)
      with ok Some show ?thesis by simp
    next
      case None
      show ?thesis
      proof (cases mp)
        case False
        have "sweep cfg chunks modes y target ca usage w = (None, ca1, usage1, w1)"
          by (subst sweep.simps) (simp add: True r None False)
        with ok None show ?thesis by simp
      next
        case T: True
        from sweep_pass_progress[OF r] T have "ca < ca1" by simp
        then have m: "nat (target - ca1) < nat (target - ca)" using True by simp
        have "sweep cfg chunks modes y target ca usage w =
            sweep cfg chunks modes y target ca1 usage1 w1"
          by (subst sweep.simps) (simp add: True r None T)
        moreover have "run_ok ?e u0 c f0 target (sweep cfg chunks modes y target ca1 usage1 w1)"
          using m ok by (intro less.hyps) (simp_all add: run_ok_def)
        ultimately show ?thesis by simp
      qed
    qed
  qed
qed

lemma extract_all_inv:
  "extract_all cfg chunks acc w = (res, w') \<Longrightarrow> run_inv e u0 c f0 ca usage w \<Longrightarrow>
   run_inv e u0 c f0 ca usage w'"
proof (induction chunks arbitrary: acc w)
  case Nil
  then show ?case by simp
next
  case (Cons ch chunks)
  let ?mf = "max 40 (py_round (fmul (fdiv (float_of_int (int (length (split_ws (clean_text ch))))) 1000) 110))"
  obtain r w1 where a: "ai_extract_facts cfg ch ?mf w = (r, w1)"
    by (cases "ai_extract_facts cfg ch ?mf w")
  have inv1: "run_inv e u0 c f0 ca usage w1"
    using Cons.prems(2) ai_extract_facts_called[OF a] by (rule run_inv_called)
  show ?case
  proof (cases r)
    case (Inl err)
    with a Cons.prems(1) inv1 show ?thesis by (simp add: Let_def)
  next
    case (Inr facts)
    with a Cons.prems(1)
    have "extract_all cfg chunks (merge_facts facts acc) w1 = (res, w')" by (simp add: Let_def)
    from Cons.IH[OF this inv1] show ?thesis .
  qed
qed

lemma extract_all_failure:
  "extract_all cfg chunks acc w = (Inl failure, w') \<Longrightarrow> failure = Reject 500 ''AI extraction error''"
proof (induction chunks arbitrary: acc w)
  case Nil
  then show ?case by simp
next
  case (Cons ch chunks)
  then show ?case by (auto simp: Let_def split: prod.splits sum.splits)
qed

lemma exhaustive_pipeline_ok:
  assumes inv: "run_inv (usage_env cfg) u0 c f0 0 usage w0" and rc: "0 \<le> rc"
    and run: "exhaustive_pipeline cfg req modes wc rc usage w0 = (resp, w')"
  shows "\<exists>ca usage'. run_inv (usage_env cfg) u0 c f0 ca usage' w' \<and> ca \<le> rc \<and>
           resp \<noteq> Unhandled \<and>
           (\<forall>seen all_facts w1.
              extract_all cfg (chunk_by_words (r_text req) wc 120) ({}, []) w0 =
                (Inr (seen, all_facts), w1) \<longrightarrow>
              ca \<le> min (int (length all_facts)) rc)"
proof -
  let ?e = "usage_env cfg"
  let ?chunks = "chunk_by_words (r_text req) wc 120"
  obtain res w1 where x: "extract_all cfg ?chunks ({}, []) w0 = (res, w1)"
    by (cases "extract_all cfg ?chunks ({}, []) w0")
  have inv1: "run_inv ?e u0 c f0 0 usage w1" using x inv by (rule extract_all_inv)
  show ?thesis
  proof (cases res)
    case (Inl failure)
    with x run have "resp = failure \<and> w' = w1" by (simp add: exhaustive_pipeline_def Let_def)
    moreover from x Inl have "failure = Reject 500 ''AI extraction error''"
      by (intro extract_all_failure) simp
    ultimately show ?thesis using inv1 rc x Inl by (intro exI[of _ 0] exI[of _ usage]) simp
  next
    case (Inr p)
    obtain seen all_facts where p: "p = (seen, all_facts)" by (cases p)
    show ?thesis
    proof (cases "all_facts = []")
      case True
      with x Inr p run have "resp = Reject 422 ''No extractable facts found. Try smaller words_per_chunk.''"
        and "w' = w1" by (simp_all add: exhaustive_pipeline_def Let_def)
      then show ?thesis using inv1 rc x Inr p True
        by (intro exI[of _ 0] exI[of _ usage]) simp
    next
      case False
      let ?allowed = "min (int (length all_facts)) rc"
      obtain fail ca1 usage1 w2 where cz:
        "cardize cfg all_facts modes ?allowed 0 0 usage w1 = (fail, ca1, usage1, w2)"
        by (cases "cardize cfg all_facts modes ?allowed 0 0 usage w1") auto
      have "0 \<le> ?allowed" using rc by simp
      from cardize_ok[OF inv1 this, of all_facts modes 0]
      have ok: "run_inv ?e u0 c f0 ca1 usage1 w2" "ca1 \<le> ?allowed" "fail \<noteq> Some Unhandled"
        unfolding cz by (simp_all add: run_ok_def)
      have "w' = w2 \<and> resp \<noteq> Unhandled"
        using x Inr p False cz run ok(3)
        by (cases fail) (auto simp: exhaustive_pipeline_def Let_def split: if_splits)
      then show ?thesis using ok x Inr p
        by (intro exI[of _ ca1] exI[of _ usage1]) simp
    qed
  qed
qed

lemma py_round_nonneg: "0 \<le> x \<Longrightarrow> 0 \<le> py_round x"
proof -
  assume "0 \<le> x"
  then have "0 \<le> \<lfloor>x\<rfloor>" by simp
  then show ?thesis by (auto simp: py_round_def Let_def)
qed

lemma pow2_pos: "0 < pow2 e"
  by (simp add: pow2_def)

lemma fl_nonneg: "0 \<le> x \<Longrightarrow> 0 \<le> fl x"
proof -
  assume x: "0 \<le> x"
  let ?q = "pow2 (max (binade \<bar>x\<bar>) (- 1022) - 52)"
  have "0 \<le> x / ?q" using x pow2_pos[of "max (binade \<bar>x\<bar>) (- 1022) - 52"] by simp
  then have "0 \<le> py_round (x / ?q)" by (rule py_round_nonneg)
  then have "0 \<le> of_int (py_round (x / ?q)) * ?q"
    using pow2_pos[of "max (binade \<bar>x\<bar>) (- 1022) - 52"] by simp
  then show ?thesis by (simp add: fl_def Let_def)
qed

lemma clamp01_range: "0 \<le> clamp01 y \<and> clamp01 y \<le> 1"
  by (cases y) (auto simp: clamp01_def Let_def)

lemma cards_per_1000_words_nonneg: "0 \<le> cards_per_1000_words y"
proof -
  have "0 \<le> fsub 1 (clamp01 y)"
    unfolding fsub_def using clamp01_range[of y] by (intro fl_nonneg) simp
  moreover have "0 \<le> fsub 18 6" unfolding fsub_def by (intro fl_nonneg) simp
  ultimately have "0 \<le> fmul (fsub 1 (clamp01 y)) (fsub 18 6)"
    unfolding fmul_def by (intro fl_nonneg) simp
  then have "0 \<le> fadd 6 (fmul (fsub 1 (clamp01 y)) (fsub 18 6))"
    unfolding fadd_def by (intro fl_nonneg) simp
  then show ?thesis by (simp add: cards_per_1000_words_def Let_def)
qed

lemma estimate_total_cards_nonneg: "0 \<le> estimate_total_cards raw_text approx y"
proof -
  let ?n = "int (length (split_ws (clean_text raw_text)))"
  have "0 \<le> float_of_int ?n" unfolding float_of_int_def by (intro fl_nonneg) simp
  then have "0 \<le> fdiv (float_of_int ?n) 1000" unfolding fdiv_def by (intro fl_nonneg) simp
  then have "0 \<le> fmul (fdiv (float_of_int ?n) 1000) (cards_per_1000_words y)"
    unfolding fmul_def using cards_per_1000_words_nonneg[of y] by (intro fl_nonneg) simp
  then have "0 \<le> py_round (fmul (fdiv (float_of_int ?n) 1000) (cards_per_1000_words y))"
    by (rule py_round_nonneg)
  then show ?thesis by (simp add: estimate_total_cards_def Let_def)
qed

lemma balanced_pipeline_ok:
  assumes inv: "run_inv (usage_env cfg) u0 c f0 0 usage w0" and rc: "0 \<le> rc"
    and run: "balanced_pipeline cfg req modes wc rc usage w0 = (resp, w')"
  shows "\<exists>ca usage'. run_inv (usage_env cfg) u0 c f0 ca usage' w' \<and>
           ca \<le> min (estimate_total_cards (r_text req) (r_approx_cards req) (r_yield_level req)) rc \<and>
           resp \<noteq> Unhandled"
proof -
  let ?e = "usage_env cfg"
  let ?y = "r_yield_level req"
  let ?target = "min (estimate_total_cards (r_text req) (r_approx_cards req) ?y) rc"
  have t0: "0 \<le> ?target" using estimate_total_cards_nonneg rc by simp
  show ?thesis
  proof (cases "?target \<le> 0")
    case True
    with run have "resp = Reject 402 ''No remaining card quota.''" and "w' = w0"
      by (simp_all add: balanced_pipeline_def Let_def)
    then show ?thesis using inv t0 by (intro exI[of _ 0] exI[of _ usage]) simp
  next
    case False
    let ?chunks = "chunk_by_words (r_text req) wc 120"
    let ?cts = "zip ?chunks
        (map (\<lambda>w. max 1 (py_round (fmul (fdiv (float_of_int (int w)) 1000) (cards_per_1000_words ?y))))
           (map (\<lambda>c. length (split_ws (clean_text c))) ?chunks))"
    obtain fail ca1 usage1 w1 where pc:
      "per_chunk cfg ?cts modes ?y ?target 0 usage w0 = (fail, ca1, usage1, w1)"
      by (cases "per_chunk cfg ?cts modes ?y ?target 0 usage w0") auto
    from per_chunk_ok[OF inv t0, of ?cts modes ?y]
    have ok1: "run_inv ?e u0 c f0 ca1 usage1 w1" "ca1 \<le> ?target" "fail \<noteq> Some Unhandled"
      unfolding pc by (simp_all add: run_ok_def)
    show ?thesis
    proof (cases fail)
      case (Some failure)
      with run False pc have "resp = failure" and "w' = w1"
        by (simp_all add: balanced_pipeline_def Let_def)
      then show ?thesis using ok1 Some by (intro exI[of _ ca1] exI[of _ usage1]) simp
    next
      case None
      obtain fail2 ca2 usage2 w2 where sw:
        "sweep cfg ?chunks modes ?y ?target ca1 usage1 w1 = (fail2, ca2, usage2, w2)"
        by (cases "sweep cfg ?chunks modes ?y ?target ca1 usage1 w1") auto
      from sweep_ok[OF ok1(1,2), of ?chunks modes ?y]
      have ok2: "run_inv ?e u0 c f0 ca2 usage2 w2" "ca2 \<le> ?target" "fail2 \<noteq> Some Unhandled"
        unfolding sw by (simp_all add: run_ok_def)
      have "w' = w2 \<and> resp \<noteq> Unhandled"
        using run False pc None sw ok2(3)
        by (cases fail2) (auto simp: balanced_pipeline_def Let_def split: if_splits)
      then show ?thesis using ok2 by (intro exI[of _ ca2] exI[of _ usage2]) simp
    qed
  qed
qed

lemma load_usage_shape:
  "\<exists>u c. 0 \<le> u \<and> fst (load_usage e f) =
     usage_dict (PInt USAGE_SCHEMA_VERSION) (PStr (utc_month e)) (PInt u) (PInt c)"
proof -
  have d: "\<exists>u c. 0 \<le> u \<and> usage_defaults e =
      usage_dict (PInt USAGE_SCHEMA_VERSION) (PStr (utc_month e)) (PInt u) (PInt c)"
    unfolding usage_defaults_dict
    by (intro exI[of _ 0] exI[of _ "DEFAULT_CAP_CARDS_PER_MONTH e"]) simp
  have v: "\<And>x. \<exists>u c. 0 \<le> u \<and> validate_and_patch_usage e x =
      usage_dict (PInt USAGE_SCHEMA_VERSION) (PStr (utc_month e)) (PInt u) (PInt c)"
  proof -
    fix x
    show "\<exists>u c. 0 \<le> u \<and> validate_and_patch_usage e x =
      usage_dict (PInt USAGE_SCHEMA_VERSION) (PStr (utc_month e)) (PInt u) (PInt c)"
    proof (cases "\<exists>d. x = PDict d")
      case True
      then obtain dd where "x = PDict dd" by blast
      moreover have "0 \<le> healed_used e dd" by (simp add: healed_used_def)
      ultimately show ?thesis unfolding validate_dict by (simp add: validate_dict) blast
    next
      case False
      then have "validate_and_patch_usage e x = usage_defaults e" by (rule validate_not_dict)
      with d show ?thesis by simp
    qed
  qed
  have "fst (load_usage e f) = usage_defaults e \<or>
      (\<exists>x. fst (load_usage e f) = validate_and_patch_usage e x)"
    by (cases f) (auto simp: load_usage_def Let_def)
  with d v show ?thesis by metis
qed

lemma run_inv_end:
  assumes "run_inv e u0 c f0 ca usage w"
  shows "int (length (notes_of (trace w))) = ca \<and> ledger_audit u0 (trace w) \<and>
         ledger w = (if ca = 0 then f0
                     else Stored (PDict [(''version'', PInt USAGE_SCHEMA_VERSION),
                            (''month'', PStr (utc_month e)),
                            (''cards_used'', PInt (u0 + ca)), (''cap'', PInt c)]))"
  using assms by (simp add: run_inv_def ledger_audit_def usage_dict_def)

text \<open>
  C1. Take a run that passes the gates: an e-mail address, an active subscription, a
  credential, and a loaded record with \<open>cap - cards_used > 0\<close>; its trace starts empty
  and the month does not change while it runs. Whatever the service answers and however
  the run ends, the notes added to the deck are at most the remaining cap computed at the
  start; in the exhaustive pipeline they are at most the number of deduplicated facts
  capped by the remaining cap, in the balanced pipeline at most the estimated total
  capped by the remaining cap. The trace passes the audit: every write of the ledger
  follows at least one note added since the last write and raises \<open>cards_used\<close> by
  exactly the number of those notes, and no call of the service is made while notes are
  unwritten. At the end the file holds the loaded count plus the notes added, or is the
  file as loaded when no note was added.
\<close>

theorem generation_run_bounded_and_debited:
  assumes "lower (strip (r_email req)) \<noteq> []"
    and "is_active cfg (subs (lower (strip (r_email req))))"
    and "OPENAI_API_KEY cfg \<noteq> []"
    and "load_usage (usage_env cfg) (ledger w) = (usage0, file0)"
    and "dict_get usage0 ''cap'' PNone = PInt cap"
    and "dict_get usage0 ''cards_used'' PNone = PInt used"
    and "0 < cap - used"
    and "trace w = []"
    and "build_apkg cfg subs req w = (resp, w')"
  shows "let n = int (length (notes_of (trace w')));
             remaining = max 0 (cap - used)
         in n \<le> remaining \<and>
            (float_le (r_yield_level req) (fadd 0 (fl (1 / 10 ^ 9))) \<longrightarrow>
               (\<forall>seen all_facts w1.
                  extract_all cfg
                    (chunk_by_words (r_text req) (max 300 (r_words_per_chunk req)) 120)
                    ({}, []) (w\<lparr>ledger := file0\<rparr>) = (Inr (seen, all_facts), w1) \<longrightarrow>
                  n \<le> min (int (length all_facts)) remaining)) \<and>
            (\<not> float_le (r_yield_level req) (fadd 0 (fl (1 / 10 ^ 9))) \<longrightarrow>
               n \<le> min (estimate_total_cards (r_text req) (r_approx_cards req)
                          (r_yield_level req)) remaining) \<and>
            ledger_audit used (trace w') \<and>
            ledger w' =
              (if n = 0 then file0
               else Stored (PDict [(''version'', PInt USAGE_SCHEMA_VERSION),
                      (''month'', PStr (utc_month (usage_env cfg))),
                      (''cards_used'', PInt (used + n)), (''cap'', PInt cap)])) \<and>
            resp \<noteq> Unhandled"
proof -
  let ?e = "usage_env cfg"
  let ?w0 = "w\<lparr>ledger := file0\<rparr>"
  let ?rc = "max 0 (cap - used)"
  let ?modes = "normalize_modes
      (if r_modes req = [] then [Some ''Basic Recall (Q/A)''] else r_modes req)"
  let ?wc = "max 300 (r_words_per_chunk req)"
  from load_usage_shape[of ?e "ledger w"] assms(4) obtain u c where u: "0 \<le> u"
    and us: "usage0 = usage_dict (PInt USAGE_SCHEMA_VERSION) (PStr (utc_month ?e)) (PInt u) (PInt c)"
    by auto
  from assms(5,6) have uc: "c = cap" "u = used" unfolding us by (simp_all add: usage_dict_get)
  have cap0: "0 \<le> cap" using u uc assms(7) by simp
  have inv0: "run_inv ?e used cap file0 0 usage0 ?w0"
    using u uc cap0 us assms(8) by (simp add: run_inv_def notes_of_def)
  have rc: "0 \<le> ?rc" by simp
  have nz: "\<not> ?rc \<le> 0" using assms(7) by simp
  show ?thesis
  proof (cases "float_le (r_yield_level req) (fadd 0 (fl (1 / 10 ^ 9)))")
    case True
    have "build_apkg cfg subs req w = exhaustive_pipeline cfg req ?modes ?wc ?rc usage0 ?w0"
      using assms(1-7) True nz by (simp add: build_apkg_def Let_def)
    with assms(9) have run: "exhaustive_pipeline cfg req ?modes ?wc ?rc usage0 ?w0 = (resp, w')"
      by simp
    from exhaustive_pipeline_ok[OF inv0 rc run] obtain ca usage' where
      inv: "run_inv ?e used cap file0 ca usage' w'" and le: "ca \<le> ?rc" and r: "resp \<noteq> Unhandled"
      and tg: "\<forall>seen all_facts w1.
              extract_all cfg (chunk_by_words (r_text req) ?wc 120) ({}, []) ?w0 =
                (Inr (seen, all_facts), w1) \<longrightarrow>
              ca \<le> min (int (length all_facts)) ?rc"
      by blast
    from run_inv_end[OF inv] le r tg True show ?thesis by (simp add: Let_def)
  next
    case False
    have "build_apkg cfg subs req w = balanced_pipeline cfg req ?modes ?wc ?rc usage0 ?w0"
      using assms(1-7) False nz by (simp add: build_apkg_def Let_def)
    with assms(9) have run: "balanced_pipeline cfg req ?modes ?wc ?rc usage0 ?w0 = (resp, w')"
      by simp
    from balanced_pipeline_ok[OF inv0 rc run] obtain ca usage' where
      inv: "run_inv ?e used cap file0 ca usage' w'"
      and le: "ca \<le> min (estimate_total_cards (r_text req) (r_approx_cards req)
                          (r_yield_level req)) ?rc"
      and r: "resp \<noteq> Unhandled"
      by blast
    from run_inv_end[OF inv] le r False show ?thesis by (simp add: Let_def)
  qed
qed

text \<open>
  Witness for C1: an exhaustive run (three facts returned, two retained, three cards
  offered, two accepted) and a balanced run (one card, then an empty batch in the sweep).
\<close>

theorem generation_run_bounded_and_debited_witness:
  \<open>build_apkg example_config example_subs (example_request (Finite 0))
     \<lparr>script =
        [Content ''[{"fact": "Alpha is first."}, {"fact": "alpha is FIRST"}, "Beta"]'',
         Content ''Here: [{"front": "Q1", "back": "A1", "mode": "cloze"}, {"front": "Q2", "back": "A2"}, {"front": "Q3", "back": "A3"}]''],
      trace = [],
      ledger = Stored (PDict [(''version'', PInt 1), (''month'', PStr ''2026-11''),
                              (''cards_used'', PInt 5), (''cap'', PInt 100)])\<rparr> =
     (Package [Note ClozeModel ''Q1'' ''A1'', Note BasicModel ''Q2'' ''A2''],
      \<lparr>script = [],
       trace = [Call, Call, AddNote (Note ClozeModel ''Q1'' ''A1''),
                AddNote (Note BasicModel ''Q2'' ''A2''),
                Save [(''version'', PInt 1), (''month'', PStr ''2026-11''),
                      (''cards_used'', PInt 7), (''cap'', PInt 100)]],
       ledger = Stored (PDict [(''version'', PInt 1), (''month'', PStr ''2026-11''),
                               (''cards_used'', PInt 7), (''cap'', PInt 100)])\<rparr>) \<and>
   ledger_audit 5
     [Call, Call, AddNote (Note ClozeModel ''Q1'' ''A1''),
      AddNote (Note BasicModel ''Q2'' ''A2''),
      Save [(''version'', PInt 1), (''month'', PStr ''2026-11''),
            (''cards_used'', PInt 7), (''cap'', PInt 100)]] \<and>
   build_apkg example_config example_subs (example_request (Finite (1 / 2)))
     \<lparr>script =
        [Content ''[{"front": "Q1", "back": "A1", "mode": "cloze"}]'', Content ''[]''],
      trace = [], ledger = Missing\<rparr> =
     (Package [Note ClozeModel ''Q1'' ''A1''],
      \<lparr>script = [],
       trace = [Call, AddNote (Note ClozeModel ''Q1'' ''A1''),
                Save [(''version'', PInt 1), (''month'', PStr ''2026-11''),
                      (''cards_used'', PInt 1), (''cap'', PInt 50000)],
                Call],
       ledger = Stored (PDict [(''version'', PInt 1), (''month'', PStr ''2026-11''),
                               (''cards_used'', PInt 1), (''cap'', PInt 50000)])\<rparr>) \<and>
   ledger_audit 0
     [Call, AddNote (Note ClozeModel ''Q1'' ''A1''),
      Save [(''version'', PInt 1), (''month'', PStr ''2026-11''),
            (''cards_used'', PInt 1), (''cap'', PInt 50000)],
      Call] \<and>
   int (length [Note ClozeModel ''Q1'' ''A1'', Note BasicModel ''Q2'' ''A2'']) \<le>
     min (int (length [''Alpha is first.'', ''Beta''])) (max 0 (100 - 5)) \<and>
   int (length [Note ClozeModel ''Q1'' ''A1'']) \<le>
     min (estimate_total_cards ''alpha beta gamma'' 3 (Finite (1 / 2))) (max 0 (50000 - 0))\<close>
proof -
  let ?d5 = "[(''version'', PInt 1), (''month'', PStr ''2026-11''),
              (''cards_used'', PInt 5), (''cap'', PInt 100)]"
  let ?d7 = "[(''version'', PInt 1), (''month'', PStr ''2026-11''),
              (''cards_used'', PInt 7), (''cap'', PInt 100)]"
  let ?d0 = "[(''version'', PInt 1), (''month'', PStr ''2026-11''),
              (''cards_used'', PInt 0), (''cap'', PInt 50000)]"
  let ?d1 = "[(''version'', PInt 1), (''month'', PStr ''2026-11''),
              (''cards_used'', PInt 1), (''cap'', PInt 50000)]"
  let ?wa = \<open>\<lparr>script =
        [Content ''[{"fact": "Alpha is first."}, {"fact": "alpha is FIRST"}, "Beta"]'',
         Content ''Here: [{"front": "Q1", "back": "A1", "mode": "cloze"}, {"front": "Q2", "back": "A2"}, {"front": "Q3", "back": "A3"}]''],
      trace = [], ledger = Stored (PDict ?d5)\<rparr>\<close>
  let ?ta = "[Call, Call, AddNote (Note ClozeModel ''Q1'' ''A1''),
      AddNote (Note BasicModel ''Q2'' ''A2''), Save ?d7]"
  let ?wa' = "\<lparr>script = [], trace = ?ta, ledger = Stored (PDict ?d7)\<rparr>"
  let ?wb = \<open>\<lparr>script =
        [Content ''[{"front": "Q1", "back": "A1", "mode": "cloze"}]'', Content ''[]''],
      trace = [], ledger = Missing\<rparr>\<close>
  let ?tb = "[Call, AddNote (Note ClozeModel ''Q1'' ''A1''), Save ?d1, Call]"
  let ?wb' = "\<lparr>script = [], trace = ?tb, ledger = Stored (PDict ?d1)\<rparr>"
  have a1: "lower (strip (r_email (example_request (Finite 0)))) \<noteq> []" by code_simp
  have a2: "is_active example_config (example_subs (lower (strip (r_email (example_request (Finite 0))))))"
    by code_simp
  have a3: "OPENAI_API_KEY example_config \<noteq> []" by code_simp
  have a4: "load_usage (usage_env example_config) (ledger ?wa) = (?d5, Stored (PDict ?d5))"
    by code_simp
  have a5: "dict_get ?d5 ''cap'' PNone = PInt 100" "dict_get ?d5 ''cards_used'' PNone = PInt 5"
    by (simp_all add: dict_get_def)
  have a7: "(0::int) < 100 - 5" by simp
  have a8: "trace ?wa = []" by simp
  have a9: "build_apkg example_config example_subs (example_request (Finite 0)) ?wa =
      (Package [Note ClozeModel ''Q1'' ''A1'', Note BasicModel ''Q2'' ''A2''], ?wa')"
    by code_simp
  note ra = generation_run_bounded_and_debited
    [where cfg = example_config and subs = example_subs and req = "example_request (Finite 0)",
     OF a1 a2 a3 a4 a5 a7 a8 a9]
  then have la: "ledger_audit 5 (trace ?wa')" unfolding Let_def by blast
  have ay: "float_le (r_yield_level (example_request (Finite 0))) (fadd 0 (fl (1 / 10 ^ 9)))"
    by code_simp
  have ax: "extract_all example_config
      (chunk_by_words (r_text (example_request (Finite 0)))
         (max 300 (r_words_per_chunk (example_request (Finite 0)))) 120)
      ({}, []) (?wa\<lparr>ledger := Stored (PDict ?d5)\<rparr>) =
      (Inr ({''alpha is first'', ''beta''}, [''Alpha is first.'', ''Beta'']),
       \<lparr>script = tl (script ?wa), trace = [Call], ledger = Stored (PDict ?d5)\<rparr>)"
    by code_simp
  have na: "notes_of ?ta = [Note ClozeModel ''Q1'' ''A1'', Note BasicModel ''Q2'' ''A2'']"
    by (simp add: notes_of_def)
  from ra ay ax have "int (length (notes_of (trace ?wa'))) \<le>
      min (int (length [''Alpha is first.'', ''Beta''])) (max 0 (100 - 5))"
    unfolding Let_def by blast
  then have ta: "int (length [Note ClozeModel ''Q1'' ''A1'', Note BasicModel ''Q2'' ''A2'']) \<le>
      min (int (length [''Alpha is first.'', ''Beta''])) (max 0 (100 - 5))"
    using na by simp
  have b1: "lower (strip (r_email (example_request (Finite (1 / 2))))) \<noteq> []" by code_simp
  have b2: "is_active example_config
      (example_subs (lower (strip (r_email (example_request (Finite (1 / 2)))))))"
    by code_simp
  have b4: "load_usage (usage_env example_config) (ledger ?wb) = (?d0, Stored (PDict ?d0))"
    by code_simp
  have b5: "dict_get ?d0 ''cap'' PNone = PInt 50000" "dict_get ?d0 ''cards_used'' PNone = PInt 0"
    by (simp_all add: dict_get_def)
  have b7: "(0::int) < 50000 - 0" by simp
  have b8: "trace ?wb = []" by simp
  have b9: "build_apkg example_config example_subs (example_request (Finite (1 / 2))) ?wb =
      (Package [Note ClozeModel ''Q1'' ''A1''], ?wb')"
    by code_simp
  note rb = generation_run_bounded_and_debited
    [where cfg = example_config and subs = example_subs and req = "example_request (Finite (1 / 2))",
     OF b1 b2 a3 b4 b5 b7 b8 b9]
  then have lb: "ledger_audit 0 (trace ?wb')" unfolding Let_def by blast
  have by': "\<not> float_le (r_yield_level (example_request (Finite (1 / 2)))) (fadd 0 (fl (1 / 10 ^ 9)))"
    by code_simp
  have nb: "notes_of ?tb = [Note ClozeModel ''Q1'' ''A1'']" by (simp add: notes_of_def)
  have rq: "r_text (example_request (Finite (1 / 2))) = ''alpha beta gamma''"
    "r_approx_cards (example_request (Finite (1 / 2))) = 3"
    "r_yield_level (example_request (Finite (1 / 2))) = Finite (1 / 2)"
    by (simp_all add: example_request_def)
  from rb by' have "int (length (notes_of (trace ?wb'))) \<le>
      min (estimate_total_cards (r_text (example_request (Finite (1 / 2))))
             (r_approx_cards (example_request (Finite (1 / 2)))) (r_yield_level (example_request (Finite (1 / 2)))))
          (max 0 (50000 - 0))"
    unfolding Let_def by blast
  then have tb: "int (length [Note ClozeModel ''Q1'' ''A1'']) \<le>
      min (estimate_total_cards ''alpha beta gamma'' 3 (Finite (1 / 2))) (max 0 (50000 - 0))"
    unfolding rq using nb by simp
  have la': "ledger_audit 5 ?ta" using la by simp
  have lb': "ledger_audit 0 ?tb" using lb by simp
  from a9 la' b9 lb' ta tb show ?thesis by blast
qed

end
